theory Spec2Isabelle
  imports Main "HOL-Library.Sublist"
begin

section \<open>Python strings\<close>

text \<open>
  A Python \<open>str\<close> is a sequence of Unicode code points. A code point is a natural
  number and a string is a list of them; ASCII literals are written through \<open>lit\<close>.
  The double quote is code point 34, the newline 10, the comma 44.
\<close>

type_synonym pychar = nat
type_synonym pystr = "pychar list"

definition lit :: "string \<Rightarrow> pystr" where
  "lit s = map of_char s"

text \<open>
  \<open>str.isspace\<close>, \<open>str.strip\<close> without argument and the regular expression class
  \<open>\s\<close> on a \<open>str\<close> pattern all use the same table of whitespace code points.
\<close>

definition isspace :: "pychar \<Rightarrow> bool" where
  "isspace c \<longleftrightarrow>
     (9 \<le> c \<and> c \<le> 13) \<or> (28 \<le> c \<and> c \<le> 32) \<or> c = 133 \<or> c = 160 \<or> c = 5760 \<or>
     (8192 \<le> c \<and> c \<le> 8202) \<or> c = 8232 \<or> c = 8233 \<or> c = 8239 \<or> c = 8287 \<or> c = 12288"

definition lstrip :: "pystr \<Rightarrow> pystr" where
  "lstrip s = dropWhile isspace s"

definition rstrip :: "pystr \<Rightarrow> pystr" where
  "rstrip s = rev (dropWhile isspace (rev s))"

definition strip :: "pystr \<Rightarrow> pystr" where
  "strip s = rstrip (lstrip s)"

text \<open>\<open>s.rstrip(',')\<close> removes every trailing occurrence of the character.\<close>

definition rstrip_char :: "pychar \<Rightarrow> pystr \<Rightarrow> pystr" where
  "rstrip_char c s = rev (dropWhile (\<lambda>x. x = c) (rev s))"

definition startswith :: "pystr \<Rightarrow> pystr \<Rightarrow> bool" where
  "startswith s p = prefix p s"

definition endswith :: "pystr \<Rightarrow> pystr \<Rightarrow> bool" where
  "endswith s p = suffix p s"

text \<open>\<open>p in s\<close>: the string \<open>p\<close> occurs in \<open>s\<close>.\<close>

fun contains :: "pystr \<Rightarrow> pystr \<Rightarrow> bool" where
  "contains p [] = (p = [])"
| "contains p (c # cs) = (prefix p (c # cs) \<or> contains p cs)"

text \<open>\<open>s.split('\n')\<close> and \<open>'\n'.join(ls)\<close>.\<close>

fun split_nl :: "pystr \<Rightarrow> pystr list" where
  "split_nl [] = [[]]"
| "split_nl (c # cs) =
     (let rest = split_nl cs in
      if c = 10 then [] # rest else (c # hd rest) # tl rest)"

fun join_nl :: "pystr list \<Rightarrow> pystr" where
  "join_nl [] = []"
| "join_nl [l] = l"
| "join_nl (l # m # ls) = l @ 10 # join_nl (m # ls)"

text \<open>Decimal rendering of a number, as an f-string prints it.\<close>

fun str_nat :: "nat \<Rightarrow> pystr" where
  "str_nat n = (if n < 10 then [48 + n] else str_nat (n div 10) @ [48 + n mod 10])"

section \<open>Line classification\<close>

text \<open>
  \<open>re.match(r'^\s+"', line)\<close>: one or more whitespace characters from the start of
  the line, followed by a double quote. The quote is not whitespace, so the greedy run
  is the maximal whitespace prefix. (The variable \<open>pattern\<close> of the source is assigned
  and never used.)
\<close>

definition match_ws_quote :: "pystr \<Rightarrow> bool" where
  "match_ws_quote line \<longleftrightarrow>
     takeWhile isspace line \<noteq> [] \<and> startswith (dropWhile isspace line) [34]"

definition macro_token :: pystr where
  "macro_token = lit ''ic_cdk::println!''"

text \<open>The substrings tested after the macro token, in the order of the source.\<close>

definition exclusions :: "pystr list" where
  "exclusions =
     [lit ''return '', lit ''format!'', lit ''panic!'', lit ''assert!'',
      lit ''= '' @ [34], lit ''let '', lit ''const '']"

definition is_candidate :: "pystr \<Rightarrow> bool" where
  "is_candidate line \<longleftrightarrow>
     match_ws_quote line \<and>
     \<not> contains macro_token line \<and>
     \<not> contains (lit ''return '') line \<and>
     \<not> contains (lit ''format!'') line \<and>
     \<not> contains (lit ''panic!'') line \<and>
     \<not> contains (lit ''assert!'') line \<and>
     \<not> contains (lit ''= '' @ [34]) line \<and>
     \<not> contains (lit ''let '') line \<and>
     \<not> contains (lit ''const '') line"

text \<open>The line contains the macro token or one of the exclusion substrings.\<close>

definition has_exclusion :: "pystr \<Rightarrow> bool" where
  "has_exclusion line \<longleftrightarrow>
     contains macro_token line \<or> (\<exists>e \<in> set exclusions. contains e line)"

text \<open>The condition of the inner look-ahead loop on one line.\<close>

definition is_continuation :: "pystr \<Rightarrow> bool" where
  "is_continuation l \<longleftrightarrow>
     endswith (strip l) (lit '','') \<or>
     (endswith (strip l) (lit '');'') \<and> \<not> startswith (strip l) (lit '')''))"

section \<open>The scan\<close>

text \<open>
  The inner loop: from index \<open>j\<close>, append lines to \<open>continuation_lines\<close> while the
  index is in range and the line is a continuation. It returns the final index and the
  collected lines.
\<close>

function look_ahead :: "pystr list \<Rightarrow> nat \<Rightarrow> pystr list \<Rightarrow> nat \<times> pystr list" where
  "look_ahead lines j conts =
     (if j < length lines \<and> is_continuation (lines ! j)
      then look_ahead lines (j + 1) (conts @ [lines ! j])
      else (j, conts))"
  by pat_completeness auto
termination
  by (relation "measure (\<lambda>(lines, j, conts). length lines - j)") auto

declare look_ahead.simps [simp del]

text \<open>The two reconstructions of a rewrite block.\<close>

definition indent_of :: "pystr \<Rightarrow> pystr" where
  "indent_of line = takeWhile isspace line"

definition open_macro :: "pystr \<Rightarrow> pystr" where
  "open_macro line = indent_of line @ lit ''ic_cdk::println!('' @ strip line"

definition close_last :: "pystr \<Rightarrow> pystr" where
  "close_last last_line =
     (if endswith (strip last_line) (lit '');'') then last_line
      else rstrip_char 44 (rstrip last_line) @ lit '');'')"

definition single_line :: "pystr \<Rightarrow> pystr" where
  "single_line line =
     (let quote_content = strip line;
          quote_content = (if endswith quote_content (lit '';'')
                           then butlast quote_content else quote_content)
      in indent_of line @ lit ''ic_cdk::println!('' @ quote_content @ lit '');'')"

text \<open>
  One iteration of the outer loop at index \<open>i < len(lines)\<close>: the new index and the
  lines appended to \<open>fixed_lines\<close>.
\<close>

definition step :: "pystr list \<Rightarrow> nat \<Rightarrow> nat \<times> pystr list" where
  "step lines i =
     (let line = lines ! i in
      if is_candidate line then
        (let (j, continuation_lines) = look_ahead lines (i + 1) [] in
         if continuation_lines \<noteq> [] then
           (j, [open_macro line] @ butlast continuation_lines @
               [close_last (last continuation_lines)])
         else (i + 1, [single_line line]))
      else (i + 1, [line]))"

lemma look_ahead_index: "j \<le> fst (look_ahead lines j conts)"
proof (induction lines j conts rule: look_ahead.induct)
  case (1 lines j conts)
  show ?case
  proof (cases "j < length lines \<and> is_continuation (lines ! j)")
    case True
    with "1.IH" have "j + 1 \<le> fst (look_ahead lines (j + 1) (conts @ [lines ! j]))"
      by simp
    with True show ?thesis by (subst look_ahead.simps) simp
  next
    case False
    then show ?thesis by (subst look_ahead.simps) auto
  qed
qed

lemma step_advances: "i < fst (step lines i)"
proof -
  have "i + 1 \<le> fst (look_ahead lines (i + 1) [])" by (rule look_ahead_index)
  then show ?thesis
    by (auto simp: step_def Let_def split: prod.splits)
qed

function rewrite_from :: "pystr list \<Rightarrow> nat \<Rightarrow> pystr list \<Rightarrow> pystr list" where
  "rewrite_from lines i fixed_lines =
     (if i < length lines
      then rewrite_from lines (fst (step lines i)) (fixed_lines @ snd (step lines i))
      else fixed_lines)"
  by pat_completeness auto
termination
proof (relation "measure (\<lambda>(lines, i, fixed_lines). length lines - i)")
  show "wf (measure (\<lambda>(lines, i, fixed_lines). length lines - i))" by simp
next
  fix lines :: "pystr list" and i :: nat and fixed_lines :: "pystr list"
  assume "i < length lines"
  moreover have "i < fst (step lines i)" by (rule step_advances)
  ultimately show "((lines, fst (step lines i), fixed_lines @ snd (step lines i)),
                    (lines, i, fixed_lines))
                   \<in> measure (\<lambda>(lines, i, fixed_lines). length lines - i)"
    by simp
qed

declare rewrite_from.simps [simp del]

text \<open>The text transformation: split, scan from index 0, join.\<close>

definition rewrite_lines :: "pystr list \<Rightarrow> pystr list" where
  "rewrite_lines lines = rewrite_from lines 0 []"

definition transform :: "pystr \<Rightarrow> pystr" where
  "transform content = join_nl (rewrite_lines (split_nl content))"

text \<open>
  The values the index \<open>i\<close> takes at the head of the outer loop, started at \<open>i\<close>:
  the lines the scan classifies itself, as opposed to those the look-ahead consumes.
\<close>

function visited_from :: "pystr list \<Rightarrow> nat \<Rightarrow> nat list" where
  "visited_from lines i =
     (if i < length lines then i # visited_from lines (fst (step lines i)) else [])"
  by pat_completeness auto
termination
proof (relation "measure (\<lambda>(lines, i). length lines - i)")
  show "wf (measure (\<lambda>(lines, i). length lines - i))" by simp
next
  fix lines :: "pystr list" and i :: nat
  assume "i < length lines"
  moreover have "i < fst (step lines i)" by (rule step_advances)
  ultimately show "((lines, fst (step lines i)), (lines, i))
                   \<in> measure (\<lambda>(lines, i). length lines - i)"
    by simp
qed

declare visited_from.simps [simp del]

text \<open>
  Position \<open>p\<close> is consumed by the look-ahead: it lies between an index the outer
  loop visits and the index that iteration moves to.
\<close>

definition consumed :: "pystr list \<Rightarrow> nat \<Rightarrow> bool" where
  "consumed lines p \<longleftrightarrow>
     (\<exists>k \<in> set (visited_from lines 0). k < p \<and> p < fst (step lines k))"

section \<open>Files\<close>

text \<open>
  The file system as \<open>fix_missing_println\<close> sees it. Reading a path either raises an
  exception with a message (\<open>Inl\<close>: missing file, no permission, invalid UTF-8) or
  returns the text of \<open>f.read()\<close> (\<open>Inr\<close>), as text mode delivers it. Writing
  succeeds, or \<open>open(path, 'w')\<close> raises and the file is untouched, or \<open>f.write\<close>
  raises after the file was truncated and leaves some other content behind.
\<close>

datatype write_behaviour = Writes | OpenRaises pystr | WriteRaises pystr pystr

datatype file_state = File (read_result: "pystr + pystr") (write_behaviour: write_behaviour)

type_synonym filesystem = "pystr \<Rightarrow> file_state"

definition error_line :: "pystr \<Rightarrow> pystr \<Rightarrow> pystr" where
  "error_line file_path msg = lit ''Error processing '' @ file_path @ lit '': '' @ msg"

text \<open>
  The result is the file system afterwards, the lines printed and the returned boolean.
  Both handlers of the source are the \<open>except Exception\<close> clause.
\<close>

definition fix_missing_println ::
    "filesystem \<Rightarrow> pystr \<Rightarrow> filesystem \<times> pystr list \<times> bool" where
  "fix_missing_println fs file_path =
     (case read_result (fs file_path) of
        Inl msg \<Rightarrow> (fs, [error_line file_path msg], False)
      | Inr content \<Rightarrow>
          (let new_content = transform content in
           if new_content \<noteq> content then
             (case write_behaviour (fs file_path) of
                OpenRaises msg \<Rightarrow> (fs, [error_line file_path msg], False)
              | WriteRaises msg left \<Rightarrow>
                  (fs(file_path := File (Inr left) (WriteRaises msg left)),
                   [error_line file_path msg], False)
              | Writes \<Rightarrow>
                  (fs(file_path := File (Inr new_content) Writes),
                   [lit ''Fixed: '' @ file_path], True))
           else (fs, [], False)))"

section \<open>Discovery and the entry point\<close>

text \<open>
  What \<open>os.walk\<close> finds at a path: a regular file, a directory with its entries, a
  directory that cannot be listed, or nothing. Symbolic links are not modelled.
\<close>

datatype node = RegularFile | Directory "(pystr \<times> node) list" | Denied | Missing

datatype os_error = FileNotFoundError | PermissionError | NotADirectoryError

fun scandir :: "node \<Rightarrow> os_error + (pystr \<times> node) list" where
  "scandir (Directory entries) = Inr entries"
| "scandir RegularFile = Inl NotADirectoryError"
| "scandir Denied = Inl PermissionError"
| "scandir Missing = Inl FileNotFoundError"

fun is_dir :: "node \<Rightarrow> bool" where
  "is_dir (Directory entries) = True"
| "is_dir Denied = True"
| "is_dir RegularFile = False"
| "is_dir Missing = False"

text \<open>\<open>os.path.join\<close> of two components on POSIX.\<close>

definition path_join :: "pystr \<Rightarrow> pystr \<Rightarrow> pystr" where
  "path_join a b =
     (if startswith b (lit ''/'') then b
      else if a = [] \<or> endswith a (lit ''/'') then a @ b
      else a @ lit ''/'' @ b)"

lemma scandir_size:
  "scandir n = Inr entries \<Longrightarrow> (name, c) \<in> set entries \<Longrightarrow> size c < size n"
  by (cases n)
     (auto simp: less_Suc_eq_le
           dest!: size_list_estimation' [where f = "size_prod (\<lambda>_. 0) size" and y = "size c"])

text \<open>
  \<open>os.walk(top)\<close> as \<open>main\<close> calls it: top-down, with \<open>onerror=None\<close>. An error of
  \<open>scandir\<close> is then ignored and the directory yields nothing. The result is the list
  of the triples \<open>(root, dirs, files)\<close> in the order they are yielded.
\<close>

function os_walk :: "pystr \<Rightarrow> node \<Rightarrow> (pystr \<times> pystr list \<times> pystr list) list" where
  "os_walk dirpath n =
     (case scandir n of
        Inl err \<Rightarrow> []
      | Inr entries \<Rightarrow>
          (dirpath, map fst (filter (\<lambda>e. is_dir (snd e)) entries),
                    map fst (filter (\<lambda>e. \<not> is_dir (snd e)) entries)) #
          concat (map (\<lambda>e. os_walk (path_join dirpath (fst e)) (snd e))
                      (filter (\<lambda>e. is_dir (snd e)) entries)))"
  by pat_completeness auto
termination
  apply (relation "measure (\<lambda>(dirpath, n). size n)")
   apply simp
  apply (auto dest: scandir_size)
  done

declare os_walk.simps [simp del]

definition backend_dir :: pystr where
  "backend_dir = lit ''/Users/zhang/Desktop/ICP/DeFlow/src/DeFlow_backend/src''"

definition find_rust_files :: "node \<Rightarrow> pystr list" where
  "find_rust_files tree =
     concat (map (\<lambda>(root, dirs, files).
                    map (path_join root) (filter (\<lambda>f. endswith f (lit ''.rs'')) files))
                 (os_walk backend_dir tree))"

text \<open>The loop over \<open>rust_files\<close>: the file system, the lines printed and \<open>fixed_count\<close>.\<close>

fun process_files :: "filesystem \<Rightarrow> pystr list \<Rightarrow> filesystem \<times> pystr list \<times> nat" where
  "process_files fs [] = (fs, [], 0)"
| "process_files fs (file_path # rest) =
     (case fix_missing_println fs file_path of
        (fs1, out1, fixed) \<Rightarrow>
          (case process_files fs1 rest of
             (fs2, out2, fixed_count) \<Rightarrow>
               (fs2, out1 @ out2, (if fixed then 1 else 0) + fixed_count)))"

text \<open>
  \<open>main\<close>, given what is at the hardcoded root and the file system: the file system
  afterwards and the lines printed.
\<close>

definition main :: "node \<Rightarrow> filesystem \<Rightarrow> filesystem \<times> pystr list" where
  "main tree fs =
     (let rust_files = find_rust_files tree in
      case process_files fs rust_files of
        (fs', out, fixed_count) \<Rightarrow>
          (fs',
           [lit ''Found '' @ str_nat (length rust_files) @ lit '' Rust files to process...'']
           @ out @ [lit ''Fixed '' @ str_nat fixed_count @ lit '' files'']))"

section \<open>Example inputs\<close>

text \<open>Concrete lines, texts and file systems on which the theorems below are instantiated.\<close>

definition block_lines :: "pystr list" where
  "block_lines =
     [lit ''  '' @ [34] @ lit ''a'' @ [34], lit ''  x,'', lit ''  y,'', lit ''  z);'']"

definition run_lines :: "pystr list" where
  "run_lines = [lit ''  '' @ [34] @ lit ''a'' @ [34], lit ''  x,'', lit ''  y);'', lit ''  z,'']"

definition hello_line :: pystr where
  "hello_line = lit ''    '' @ [34] @ lit ''hello'' @ [34] @ lit '';''"

definition hello_fixed :: pystr where
  "hello_fixed = lit ''    ic_cdk::println!('' @ [34] @ lit ''hello'' @ [34] @ lit '');''"

definition hello_fs :: filesystem where
  "hello_fs = (\<lambda>p. File (Inr hello_line) Writes)"

definition column0_lines :: "pystr list" where
  "column0_lines = [[34] @ lit ''a'' @ [34] @ lit '';'', lit ''}'']"

definition plain_text :: pystr where
  "plain_text = lit ''fn main() {'' @ [10] @ lit ''    run();'' @ [10] @ lit ''}''"

definition plain_fs :: filesystem where
  "plain_fs = (\<lambda>p. File (Inr plain_text) Writes)"

definition denied_fs :: filesystem where
  "denied_fs =
     (\<lambda>p. if p = lit ''a.rs'' then File (Inl (lit ''Permission denied'')) Writes
          else File (Inr hello_line) Writes)"



definition paren_lines :: "pystr list" where
  "paren_lines =
     [lit ''  '' @ [34] @ lit ''a'' @ [34], lit ''  x,'', lit ''  y,'', lit ''  );'']"

definition nested_text :: pystr where
  "nested_text =
     lit ''    '' @ [34] @ lit ''n {}'' @ [34] @ lit '','' @ [10] @
     lit ''    '' @ [34] @ lit ''w'' @ [34] @ lit '','' @ [10] @
     lit ''    id);''"

definition nested_once :: pystr where
  "nested_once =
     lit ''    ic_cdk::println!('' @ [34] @ lit ''n {}'' @ [34] @ lit '','' @ [10] @
     lit ''    '' @ [34] @ lit ''w'' @ [34] @ lit '','' @ [10] @
     lit ''    id);''"

definition nested_twice :: pystr where
  "nested_twice =
     lit ''    ic_cdk::println!('' @ [34] @ lit ''n {}'' @ [34] @ lit '','' @ [10] @
     lit ''    ic_cdk::println!('' @ [34] @ lit ''w'' @ [34] @ lit '','' @ [10] @
     lit ''    id);''"

definition nested_fs :: filesystem where
  "nested_fs = (\<lambda>p. File (Inr nested_text) Writes)"

definition block_text :: pystr where
  "block_text =
     lit ''  '' @ [34] @ lit ''a'' @ [34] @ [10] @ lit ''  x,'' @ [10] @ lit ''  y,'' @ [10] @
     lit ''  z);''"

definition block_fs :: filesystem where
  "block_fs = (\<lambda>p. File (Inr block_text) Writes)"

section \<open>Properties of one iteration\<close>

lemma look_ahead_takeWhile:
  "look_ahead lines j conts =
     (j + length (takeWhile is_continuation (drop j lines)),
      conts @ takeWhile is_continuation (drop j lines))"
proof (induction lines j conts rule: look_ahead.induct)
  case (1 lines j conts)
  show ?case
  proof (cases "j < length lines")
    case inrange: True
    then have d: "drop j lines = lines ! j # drop (j + 1) lines"
      by (simp add: Cons_nth_drop_Suc)
    show ?thesis
    proof (cases "is_continuation (lines ! j)")
      case True
      with inrange "1.IH" d show ?thesis
        by (subst look_ahead.simps) simp
    next
      case False
      with d show ?thesis by (subst look_ahead.simps) simp
    qed
  next
    case False
    then show ?thesis by (subst look_ahead.simps) simp
  qed
qed

lemma step_unrelated:
  "\<not> is_candidate (lines ! i) \<Longrightarrow> step lines i = (i + 1, [lines ! i])"
  by (simp add: step_def)

lemma step_single:
  "is_candidate (lines ! i) \<Longrightarrow> takeWhile is_continuation (drop (i + 1) lines) = [] \<Longrightarrow>
   step lines i = (i + 1, [single_line (lines ! i)])"
  by (simp add: step_def look_ahead_takeWhile)

lemma step_multi:
  "is_candidate (lines ! i) \<Longrightarrow> takeWhile is_continuation (drop (i + 1) lines) = cs \<Longrightarrow>
   cs \<noteq> [] \<Longrightarrow>
   step lines i =
     (i + 1 + length cs, open_macro (lines ! i) # butlast cs @ [close_last (last cs)])"
  by (simp add: step_def look_ahead_takeWhile)

lemma takeWhile_drop_bound:
  "j \<le> length lines \<Longrightarrow> j + length (takeWhile P (drop j lines)) \<le> length lines"
  using length_takeWhile_le [of P "drop j lines"] by simp

lemma step_fst_le: "i < length lines \<Longrightarrow> fst (step lines i) \<le> length lines"
  using takeWhile_drop_bound [of "i + 1" lines is_continuation]
  by (auto simp: step_def look_ahead_takeWhile Let_def)

lemma step_length: "length (snd (step lines i)) = fst (step lines i) - i"
  by (auto simp: step_def look_ahead_takeWhile Let_def)

section \<open>Properties of the scan\<close>

subsection \<open>The outer loop\<close>

lemma visited_from_length: "length (visited_from lines i) \<le> length lines - i"
proof (induction lines i rule: visited_from.induct)
  case (1 lines i)
  show ?case
  proof (cases "i < length lines")
    case True
    have "i < fst (step lines i)" by (rule step_advances)
    moreover have "fst (step lines i) \<le> length lines" using True by (rule step_fst_le)
    moreover have "length (visited_from lines (fst (step lines i)))
                   \<le> length lines - fst (step lines i)"
      using True by (rule "1.IH")
    ultimately show ?thesis using True
      by (subst visited_from.simps) simp
  next
    case False
    then show ?thesis by (subst visited_from.simps) simp
  qed
qed

lemma rewrite_from_unroll:
  "rewrite_from lines i acc =
     acc @ concat (map (\<lambda>k. snd (step lines k)) (visited_from lines i))"
proof (induction lines i acc rule: rewrite_from.induct)
  case (1 lines i acc)
  show ?case
  proof (cases "i < length lines")
    case True
    then show ?thesis
      using "1.IH" by (subst rewrite_from.simps, subst visited_from.simps) simp
  next
    case False
    then show ?thesis by (subst rewrite_from.simps, subst visited_from.simps) simp
  qed
qed

lemma visited_from_bounds: "k \<in> set (visited_from lines i) \<Longrightarrow> i \<le> k \<and> k < length lines"
proof (induction lines i rule: visited_from.induct)
  case (1 lines i)
  show ?case
  proof (cases "i < length lines")
    case True
    have adv: "i < fst (step lines i)" by (rule step_advances)
    from "1.prems" True have "k = i \<or> k \<in> set (visited_from lines (fst (step lines i)))"
      by (subst (asm) visited_from.simps) simp
    then show ?thesis
    proof
      assume "k = i"
      with True show ?thesis by simp
    next
      assume "k \<in> set (visited_from lines (fst (step lines i)))"
      with True "1.IH" have "fst (step lines i) \<le> k \<and> k < length lines" by simp
      with adv show ?thesis by simp
    qed
  next
    case False
    with "1.prems" show ?thesis by (subst (asm) visited_from.simps) simp
  qed
qed

lemma rewrite_from_nth:
  "k \<in> set (visited_from lines i) \<Longrightarrow> m < length (snd (step lines k)) \<Longrightarrow>
   rewrite_from lines i acc ! (length acc + (k - i) + m) = snd (step lines k) ! m"
proof (induction lines i acc rule: rewrite_from.induct)
  case (1 lines i acc)
  show ?case
  proof (cases "i < length lines")
    case True
    let ?j = "fst (step lines i)" and ?out = "snd (step lines i)"
    have adv: "i < ?j" by (rule step_advances)
    have len: "length ?out = ?j - i" by (rule step_length)
    have unf: "rewrite_from lines i acc = rewrite_from lines ?j (acc @ ?out)"
      using True by (subst rewrite_from.simps) simp
    from "1.prems"(1) True have "k = i \<or> k \<in> set (visited_from lines ?j)"
      by (subst (asm) visited_from.simps) simp
    then show ?thesis
    proof
      assume ki: "k = i"
      have "rewrite_from lines ?j (acc @ ?out) =
              (acc @ ?out) @ concat (map (\<lambda>k. snd (step lines k)) (visited_from lines ?j))"
        by (rule rewrite_from_unroll)
      with unf ki "1.prems"(2) show ?thesis by (simp add: nth_append)
    next
      assume kv: "k \<in> set (visited_from lines ?j)"
      then have "?j \<le> k" using visited_from_bounds by blast
      moreover from True kv "1.prems"(2)
      have "rewrite_from lines ?j (acc @ ?out) ! (length (acc @ ?out) + (k - ?j) + m)
              = snd (step lines k) ! m"
        by (rule "1.IH")
      ultimately show ?thesis using unf adv len by simp
    qed
  next
    case False
    with "1.prems"(1) show ?thesis by (subst (asm) visited_from.simps) simp
  qed
qed

lemma rewrite_from_length:
  "i \<le> length lines \<Longrightarrow> length (rewrite_from lines i acc) = length acc + (length lines - i)"
proof (induction lines i acc rule: rewrite_from.induct)
  case (1 lines i acc)
  show ?case
  proof (cases "i < length lines")
    case True
    let ?j = "fst (step lines i)" and ?out = "snd (step lines i)"
    have adv: "i < ?j" by (rule step_advances)
    have le: "?j \<le> length lines" using True by (rule step_fst_le)
    have len: "length ?out = ?j - i" by (rule step_length)
    have "length (rewrite_from lines ?j (acc @ ?out)) = length (acc @ ?out) + (length lines - ?j)"
      using True le by (rule "1.IH")
    moreover have "rewrite_from lines i acc = rewrite_from lines ?j (acc @ ?out)"
      using True by (subst rewrite_from.simps) simp
    ultimately show ?thesis using adv le len by simp
  next
    case False
    with "1.prems" show ?thesis by (subst rewrite_from.simps) simp
  qed
qed

lemma rewrite_lines_length: "length (rewrite_lines lines) = length lines"
  by (simp add: rewrite_lines_def rewrite_from_length)

lemma rewrite_lines_nth:
  "k \<in> set (visited_from lines 0) \<Longrightarrow> m < length (snd (step lines k)) \<Longrightarrow>
   rewrite_lines lines ! (k + m) = snd (step lines k) ! m"
  using rewrite_from_nth [of k lines 0 m "[]"] by (simp add: rewrite_lines_def)

subsection \<open>Lines the scan leaves alone\<close>

lemma quote_not_space: "\<not> isspace 34" by (simp add: isspace_def)

lemma column0_not_matched: "startswith line [34] \<Longrightarrow> \<not> match_ws_quote line"
  by (cases line) (auto simp: startswith_def match_ws_quote_def quote_not_space)

lemma candidate_leading_space: "is_candidate line \<Longrightarrow> line \<noteq> [] \<and> isspace (hd line)"
  by (cases line) (auto simp: is_candidate_def match_ws_quote_def split: if_splits)

lemma rewrite_lines_visited_unrelated:
  assumes "k \<in> set (visited_from lines 0)" and "\<not> is_candidate (lines ! k)"
  shows "rewrite_lines lines ! k = lines ! k"
proof -
  from assms(2) have "snd (step lines k) = [lines ! k]" by (simp add: step_unrelated)
  with rewrite_lines_nth [OF assms(1), of 0] show ?thesis by simp
qed

subsection \<open>Splitting and joining\<close>

lemma split_nl_nonempty: "split_nl s \<noteq> []"
  by (induction s) (auto simp: Let_def)

lemma join_nl_Cons_Cons: "join_nl ((c # l) # ls) = c # join_nl (l # ls)"
  by (cases ls) auto

lemma join_nl_Nil_Cons: "ls \<noteq> [] \<Longrightarrow> join_nl ([] # ls) = 10 # join_nl ls"
  by (cases ls) auto

lemma join_split: "join_nl (split_nl s) = s"
proof (induction s)
  case Nil
  show ?case by simp
next
  case (Cons c cs)
  have ne: "split_nl cs \<noteq> []" by (rule split_nl_nonempty)
  show ?case
  proof (cases "c = 10")
    case True
    with ne Cons show ?thesis by (simp add: join_nl_Nil_Cons Let_def)
  next
    case False
    with ne Cons show ?thesis by (simp add: join_nl_Cons_Cons Let_def)
  qed
qed

subsection \<open>Texts without a candidate-start\<close>

lemma rewrite_from_no_candidates:
  "(\<And>k. i \<le> k \<Longrightarrow> k < length lines \<Longrightarrow> \<not> is_candidate (lines ! k)) \<Longrightarrow>
   rewrite_from lines i acc = acc @ drop i lines"
proof (induction lines i acc rule: rewrite_from.induct)
  case (1 lines i acc)
  show ?case
  proof (cases "i < length lines")
    case True
    with "1.prems" have nc: "\<not> is_candidate (lines ! i)" by simp
    then have st: "step lines i = (i + 1, [lines ! i])" by (rule step_unrelated)
    have "rewrite_from lines (fst (step lines i)) (acc @ snd (step lines i)) =
            (acc @ snd (step lines i)) @ drop (fst (step lines i)) lines"
      using True "1.prems" st by (intro "1.IH") auto
    with True st show ?thesis
      by (subst rewrite_from.simps) (simp add: Cons_nth_drop_Suc)
  next
    case False
    then show ?thesis by (subst rewrite_from.simps) simp
  qed
qed

lemma rewrite_lines_no_candidates:
  "\<forall>l \<in> set lines. \<not> is_candidate l \<Longrightarrow> rewrite_lines lines = lines"
  using rewrite_from_no_candidates [of 0 lines "[]"] by (simp add: rewrite_lines_def)

lemma transform_no_candidates:
  "\<forall>l \<in> set (split_nl content). \<not> is_candidate l \<Longrightarrow> transform content = content"
  by (simp add: transform_def rewrite_lines_no_candidates join_split)

lemma fix_unchanged:
  "read_result (fs file_path) = Inr content \<Longrightarrow> transform content = content \<Longrightarrow>
   fix_missing_println fs file_path = (fs, [], False)"
  by (simp add: fix_missing_println_def)

lemma fix_changes_only_if:
  "fst (fix_missing_println fs file_path) \<noteq> fs \<Longrightarrow>
   \<exists>c. read_result (fs file_path) = Inr c \<and> transform c \<noteq> c"
  by (auto simp: fix_missing_println_def Let_def split: sum.splits if_splits)

subsection \<open>Failing reads and writes\<close>






subsection \<open>A root that cannot be listed\<close>

lemma os_walk_error: "scandir tree = Inl e \<Longrightarrow> os_walk dirpath tree = []"
  by (subst os_walk.simps) simp

subsection \<open>The output line by line\<close>

lemma is_candidate_exclusion: "is_candidate line \<longleftrightarrow> match_ws_quote line \<and> \<not> has_exclusion line"
  by (auto simp: is_candidate_def has_exclusion_def exclusions_def)

lemma step_head:
  "snd (step lines i) ! 0 =
     (if is_candidate (lines ! i)
      then (if takeWhile is_continuation (drop (i + 1) lines) = []
            then single_line (lines ! i) else open_macro (lines ! i))
      else lines ! i)"
  by (simp add: step_def look_ahead_takeWhile)

lemma step_tail:
  assumes "0 < m" and "m < length (snd (step lines i))"
  shows "i + m < length lines \<and> is_continuation (lines ! (i + m)) \<and>
         (snd (step lines i) ! m = lines ! (i + m) \<or>
          snd (step lines i) ! m = close_last (lines ! (i + m)))"
proof -
  let ?cs = "takeWhile is_continuation (drop (i + 1) lines)"
  have cand: "is_candidate (lines ! i)"
  proof (rule ccontr)
    assume "\<not> is_candidate (lines ! i)"
    then have "snd (step lines i) = [lines ! i]" by (simp add: step_unrelated)
    with assms show False by simp
  qed
  have ne: "?cs \<noteq> []"
  proof
    assume "?cs = []"
    with cand have "snd (step lines i) = [single_line (lines ! i)]" by (simp add: step_single)
    with assms show False by simp
  qed
  with cand have out: "snd (step lines i) =
      open_macro (lines ! i) # butlast ?cs @ [close_last (last ?cs)]"
    by (simp add: step_multi)
  from ne have "0 < length ?cs" by simp
  with assms out have m: "m - 1 < length ?cs" by simp
  have le: "length ?cs \<le> length (drop (i + 1) lines)" by (rule length_takeWhile_le)
  with m assms(1) have inr: "i + m < length lines" by simp
  from m have "?cs ! (m - 1) = drop (i + 1) lines ! (m - 1)" by (rule takeWhile_nth)
  with assms(1) inr have nth: "?cs ! (m - 1) = lines ! (i + m)" by simp
  from m have "?cs ! (m - 1) \<in> set ?cs" by (rule nth_mem)
  then have "is_continuation (?cs ! (m - 1))" by (rule set_takeWhileD [THEN conjunct2])
  with nth have cont: "is_continuation (lines ! (i + m))" by simp
  have val: "snd (step lines i) ! m = lines ! (i + m) \<or>
             snd (step lines i) ! m = close_last (lines ! (i + m))"
  proof (cases "m - 1 < length ?cs - 1")
    case True
    with out assms(1) have "snd (step lines i) ! m = ?cs ! (m - 1)"
      by (simp add: nth_Cons' nth_append nth_butlast)
    with nth show ?thesis by simp
  next
    case False
    with m have eq: "m - 1 = length ?cs - 1" by simp
    with ne nth have "last ?cs = lines ! (i + m)" by (simp add: last_conv_nth)
    moreover from out assms(1) eq have "snd (step lines i) ! m = close_last (last ?cs)"
      by (simp add: nth_Cons' nth_append)
    ultimately show ?thesis by simp
  qed
  from inr cont val show ?thesis by simp
qed

lemma visited_from_covers:
  "i \<le> p \<Longrightarrow> p < length lines \<Longrightarrow>
   \<exists>k \<in> set (visited_from lines i). k \<le> p \<and> p < fst (step lines k)"
proof (induction lines i rule: visited_from.induct)
  case (1 lines i)
  from "1.prems" have inr: "i < length lines" by simp
  then have unf: "visited_from lines i = i # visited_from lines (fst (step lines i))"
    by (subst visited_from.simps) simp
  show ?case
  proof (cases "p < fst (step lines i)")
    case True
    with "1.prems"(1) unf show ?thesis by auto
  next
    case False
    then have "fst (step lines i) \<le> p" by simp
    with inr "1.prems"(2) "1.IH"
    have "\<exists>k \<in> set (visited_from lines (fst (step lines i))). k \<le> p \<and> p < fst (step lines k)"
      by simp
    with unf show ?thesis by auto
  qed
qed

lemma rewrite_lines_nth_cases:
  assumes "p < length lines"
  shows "(\<not> is_candidate (lines ! p) \<and> rewrite_lines lines ! p = lines ! p) \<or>
         (is_continuation (lines ! p) \<and>
            (rewrite_lines lines ! p = lines ! p \<or>
             rewrite_lines lines ! p = close_last (lines ! p))) \<or>
         (is_candidate (lines ! p) \<and>
            (rewrite_lines lines ! p = open_macro (lines ! p) \<or>
             rewrite_lines lines ! p = single_line (lines ! p)))"
proof -
  from assms visited_from_covers [of 0 p lines]
  obtain k where k: "k \<in> set (visited_from lines 0)" "k \<le> p" "p < fst (step lines k)"
    by auto
  then have m: "p - k < length (snd (step lines k))" by (simp add: step_length)
  with k have out: "rewrite_lines lines ! p = snd (step lines k) ! (p - k)"
    using rewrite_lines_nth [of k lines "p - k"] by simp
  show ?thesis
  proof (cases "p = k")
    case True
    with out have "rewrite_lines lines ! p = snd (step lines p) ! 0" by simp
    then show ?thesis by (auto simp: step_head)
  next
    case False
    with k have "0 < p - k" by simp
    from step_tail [OF this m] k out show ?thesis by simp
  qed
qed

subsection \<open>Closing the last continuation line\<close>

lemma comma_not_close: "endswith s (lit '','') \<Longrightarrow> \<not> endswith s (lit '');'')"
  by (auto simp: endswith_def suffix_def lit_def)

lemma close_last_comma:
  "endswith (strip l) (lit '','') \<Longrightarrow> close_last l = rstrip_char 44 (rstrip l) @ lit '');''"
  by (simp add: close_last_def comma_not_close)

lemma close_last_closed: "endswith (strip l) (lit '');'') \<Longrightarrow> close_last l = l"
  by (simp add: close_last_def)

lemma drop_three:
  "i + 3 < length lines \<Longrightarrow>
   drop (i + 1) lines = lines ! (i + 1) # lines ! (i + 2) # lines ! (i + 3) # drop (i + 4) lines"
proof -
  assume a: "i + 3 < length lines"
  then have "drop (i + 1) lines = lines ! (i + 1) # drop (i + 2) lines"
    using Cons_nth_drop_Suc [of "i + 1" lines] by simp
  moreover from a have "drop (i + 2) lines = lines ! (i + 2) # drop (i + 3) lines"
    using Cons_nth_drop_Suc [of "i + 2" lines] by (simp add: numeral_3_eq_3 numeral_2_eq_2)
  moreover from a have "drop (i + 3) lines = lines ! (i + 3) # drop (i + 4) lines"
    using Cons_nth_drop_Suc [of "i + 3" lines] by (simp add: numeral_3_eq_3 eval_nat_numeral)
  ultimately show ?thesis by simp
qed

subsection \<open>What closing a line preserves\<close>

lemma contains_sublist: "contains p s \<longleftrightarrow> sublist p s"
  by (induction s) (auto simp: sublist_Cons_right)

lemma rstrip_decomp: "l = rstrip l @ rev (takeWhile isspace (rev l))"
  unfolding rstrip_def by (metis rev_append rev_rev_ident takeWhile_dropWhile_id)

lemma rstrip_char_decomp:
  "s = rstrip_char c s @ replicate (length (takeWhile (\<lambda>x. x = c) (rev s))) c"
proof -
  let ?t = "takeWhile (\<lambda>x. x = c) (rev s)"
  have t: "?t = replicate (length ?t) c"
    by (rule replicate_length_same [symmetric]) (auto dest: set_takeWhileD)
  have "s = rstrip_char c s @ rev ?t"
    unfolding rstrip_char_def by (metis rev_append rev_rev_ident takeWhile_dropWhile_id)
  moreover from t have "rev ?t = replicate (length ?t) c"
    by (metis rev_replicate)
  ultimately show ?thesis by simp
qed

lemma rstrip_strip: "strip l \<noteq> [] \<Longrightarrow> rstrip l = takeWhile isspace l @ strip l"
proof -
  assume ne: "strip l \<noteq> []"
  let ?w = "takeWhile isspace l" and ?r = "dropWhile isspace l"
  from ne have "dropWhile isspace (rev ?r) \<noteq> []"
    by (simp add: strip_def rstrip_def lstrip_def)
  then obtain x where x: "x \<in> set (rev ?r)" "\<not> isspace x"
    by auto
  have "rev l = rev ?r @ rev ?w"
    by (metis rev_append takeWhile_dropWhile_id)
  with x have "dropWhile isspace (rev l) = dropWhile isspace (rev ?r) @ rev ?w"
    by simp
  then show ?thesis by (simp add: strip_def rstrip_def lstrip_def)
qed

lemma ends_comma_rstrip:
  assumes "endswith (strip l) (lit '','')"
  shows "rstrip l \<noteq> [] \<and> last (rstrip l) = 44"
proof -
  from assms obtain a where a: "strip l = a @ [44]"
    by (auto simp: endswith_def suffix_def lit_def)
  then have "strip l \<noteq> []" by simp
  then have "rstrip l = takeWhile isspace l @ strip l" by (rule rstrip_strip)
  with a show ?thesis by simp
qed

lemma close_last_shape:
  assumes "endswith (strip l) (lit '','')"
  shows "\<exists>body tail. l = body @ 44 # tail \<and> (\<forall>x \<in> set tail. x = 44 \<or> isspace x) \<and>
           close_last l = body @ lit '');''"
proof -
  let ?R = "rstrip l" and ?W = "rev (takeWhile isspace (rev l))"
  let ?B = "rstrip_char 44 ?R" and ?n = "length (takeWhile (\<lambda>x. x = 44) (rev ?R))"
  have l: "l = ?R @ ?W" by (rule rstrip_decomp)
  have R: "?R = ?B @ replicate ?n 44" by (rule rstrip_char_decomp)
  from ends_comma_rstrip [OF assms] have "rev ?R \<noteq> []" "hd (rev ?R) = 44"
    by (simp_all add: hd_rev)
  then have "takeWhile (\<lambda>x. x = 44) (rev ?R) \<noteq> []"
    by (cases "rev ?R") auto
  then obtain m where m: "?n = Suc m" by (cases ?n) auto
  have W: "\<forall>x \<in> set ?W. isspace x" by (auto dest: set_takeWhileD)
  have "l = ?B @ 44 # (replicate m 44 @ ?W)"
    using l R m by (metis append.assoc append_Cons replicate_Suc)
  moreover have "\<forall>x \<in> set (replicate m 44 @ ?W). x = 44 \<or> isspace x"
    using W by auto
  moreover have "close_last l = ?B @ lit '');''"
    using assms by (simp add: close_last_comma)
  ultimately show ?thesis by blast
qed

lemma sublist_split_at:
  assumes "sublist p (xs @ y # ys)" and "y \<notin> set p"
  shows "sublist p xs \<or> sublist p ys"
proof -
  from assms(1) consider "sublist p xs" | "sublist p (y # ys)"
    | p1 p2 where "p = p1 @ p2" "suffix p1 xs" "prefix p2 (y # ys)"
    by (auto simp: sublist_append)
  then show ?thesis
  proof cases
    case 1
    then show ?thesis by simp
  next
    case 2
    with assms(2) show ?thesis
      by (cases p) (auto simp: sublist_Cons_right)
  next
    case 3
    with assms(2) have "p2 = []" by (cases p2) auto
    with 3 show ?thesis by auto
  qed
qed

lemma sublist_kept_by_close:
  assumes "endswith (strip l) (lit '','')" and "sublist p l" and "44 \<notin> set p"
    and "\<exists>x \<in> set p. \<not> isspace x"
  shows "sublist p (close_last l)"
proof -
  from close_last_shape [OF assms(1)] obtain body tail where
    s: "l = body @ 44 # tail" "\<forall>x \<in> set tail. x = 44 \<or> isspace x"
       "close_last l = body @ lit '');''"
    by blast
  from assms(2,3) s(1) have "sublist p body \<or> sublist p tail"
    by (simp add: sublist_split_at)
  moreover have "\<not> sublist p tail"
  proof
    assume "sublist p tail"
    then have "set p \<subseteq> set tail" by (rule set_mono_sublist)
    with s(2) assms(3,4) show False by auto
  qed
  ultimately have "sublist p body" by simp
  with s(3) show ?thesis by (simp add: sublist_append)
qed

lemma match_ws_quote_append:
  assumes "\<exists>x \<in> set body. \<not> isspace x"
  shows "match_ws_quote (body @ t) = match_ws_quote body"
proof -
  from assms have tw: "takeWhile isspace (body @ t) = takeWhile isspace body"
    by (auto simp: takeWhile_append)
  from assms have dw: "dropWhile isspace (body @ t) = dropWhile isspace body @ t"
    by (auto simp: dropWhile_append)
  from assms have "dropWhile isspace body \<noteq> []" by auto
  then obtain x xs where "dropWhile isspace body = x # xs" by (cases "dropWhile isspace body") auto
  with tw dw show ?thesis by (simp add: match_ws_quote_def startswith_def)
qed

lemma match_ws_quote_spaces_close:
  assumes "\<forall>x \<in> set body. isspace x"
  shows "\<not> match_ws_quote (body @ lit '');'')"
proof -
  have "\<not> isspace 41" by (simp add: isspace_def)
  with assms have "dropWhile isspace (body @ lit '');'') = lit '');''"
    by (simp add: dropWhile_append lit_def)
  then show ?thesis by (simp add: match_ws_quote_def startswith_def lit_def)
qed

lemma match_kept_by_close:
  assumes "endswith (strip l) (lit '','')" and "match_ws_quote (close_last l)"
  shows "match_ws_quote l"
proof -
  from close_last_shape [OF assms(1)] obtain body tail where
    s: "l = body @ 44 # tail" "close_last l = body @ lit '');''"
    by blast
  show ?thesis
  proof (cases "\<forall>x \<in> set body. isspace x")
    case True
    with assms(2) s(2) show ?thesis by (simp add: match_ws_quote_spaces_close)
  next
    case False
    then have ex: "\<exists>x \<in> set body. \<not> isspace x" by simp
    from assms(2) s(2) have "match_ws_quote body"
      by (simp add: match_ws_quote_append [OF ex])
    with s(1) show ?thesis by (simp add: match_ws_quote_append [OF ex])
  qed
qed

lemma exclusion_patterns:
  "p = macro_token \<or> p \<in> set exclusions \<Longrightarrow> 44 \<notin> set p \<and> (\<exists>x \<in> set p. \<not> isspace x)"
  by (auto simp: macro_token_def exclusions_def lit_def isspace_def)

lemma exclusion_kept_by_close:
  assumes "endswith (strip l) (lit '','')" and "has_exclusion l"
  shows "has_exclusion (close_last l)"
proof -
  from assms(2) obtain p where p: "p = macro_token \<or> p \<in> set exclusions" "contains p l"
    by (auto simp: has_exclusion_def)
  from exclusion_patterns [OF p(1)] p(2) assms(1) have "contains p (close_last l)"
    by (simp add: contains_sublist sublist_kept_by_close)
  with p(1) show ?thesis by (auto simp: has_exclusion_def)
qed

lemma close_last_not_candidate:
  assumes "is_continuation l" and "\<not> is_candidate l"
  shows "\<not> is_candidate (close_last l)"
proof (cases "endswith (strip l) (lit '');'')")
  case True
  with assms(2) show ?thesis by (simp add: close_last_closed)
next
  case False
  with assms(1) have c: "endswith (strip l) (lit '','')" by (simp add: is_continuation_def)
  from assms(2) have "\<not> match_ws_quote l \<or> has_exclusion l"
    by (simp add: is_candidate_exclusion)
  then show ?thesis
  proof
    assume "\<not> match_ws_quote l"
    with match_kept_by_close [OF c] have "\<not> match_ws_quote (close_last l)" by blast
    then show ?thesis by (simp add: is_candidate_exclusion)
  next
    assume "has_exclusion l"
    with c have "has_exclusion (close_last l)" by (rule exclusion_kept_by_close)
    then show ?thesis by (simp add: is_candidate_exclusion)
  qed
qed

subsection \<open>Rewritten lines are not candidates\<close>

lemma macro_token_open: "lit ''ic_cdk::println!('' = macro_token @ lit ''(''"
  by (simp add: macro_token_def lit_def)

lemma open_macro_not_candidate: "\<not> is_candidate (open_macro c)"
proof -
  have "sublist macro_token (open_macro c)"
    unfolding open_macro_def macro_token_open sublist_def by (metis append.assoc)
  then show ?thesis by (simp add: is_candidate_def contains_sublist)
qed

lemma single_line_not_candidate: "\<not> is_candidate (single_line c)"
proof -
  have "sublist macro_token (single_line c)"
    unfolding single_line_def Let_def macro_token_open sublist_def by (metis append.assoc)
  then show ?thesis by (simp add: is_candidate_def contains_sublist)
qed

lemma rewrite_lines_no_candidate_left:
  assumes "\<forall>l \<in> set lines. is_continuation l \<longrightarrow> \<not> is_candidate l"
  shows "\<forall>l \<in> set (rewrite_lines lines). \<not> is_candidate l"
proof -
  have "\<not> is_candidate (rewrite_lines lines ! p)" if p: "p < length lines" for p
  proof -
    from p have mem: "lines ! p \<in> set lines" by simp
    from rewrite_lines_nth_cases [OF p] show ?thesis
    proof (elim disjE conjE)
      assume "\<not> is_candidate (lines ! p)" "rewrite_lines lines ! p = lines ! p"
      then show ?thesis by simp
    next
      assume "is_continuation (lines ! p)" "rewrite_lines lines ! p = lines ! p"
      with assms mem show ?thesis by simp
    next
      assume c: "is_continuation (lines ! p)"
        and e: "rewrite_lines lines ! p = close_last (lines ! p)"
      from c assms mem have "\<not> is_candidate (lines ! p)" by simp
      with c e show ?thesis by (simp add: close_last_not_candidate)
    next
      assume "rewrite_lines lines ! p = open_macro (lines ! p)"
      then show ?thesis by (simp add: open_macro_not_candidate)
    next
      assume "rewrite_lines lines ! p = single_line (lines ! p)"
      then show ?thesis by (simp add: single_line_not_candidate)
    qed
  qed
  then show ?thesis by (auto simp: in_set_conv_nth rewrite_lines_length)
qed

subsection \<open>Lines without a newline\<close>

lemma split_nl_no_newline: "l \<in> set (split_nl s) \<Longrightarrow> 10 \<notin> set l"
proof (induction s arbitrary: l)
  case Nil
  then show ?case by simp
next
  case (Cons c cs)
  obtain r rs where r: "split_nl cs = r # rs"
    using split_nl_nonempty [of cs] by (cases "split_nl cs") auto
  show ?case
  proof (cases "c = 10")
    case True
    with Cons.prems r have "l = [] \<or> l \<in> set (split_nl cs)" by (auto simp: Let_def)
    with Cons.IH show ?thesis by auto
  next
    case False
    with Cons.prems r have "l = c # r \<or> l \<in> set rs" by (auto simp: Let_def)
    with Cons.IH [of r] Cons.IH [of l] r False show ?thesis by auto
  qed
qed

lemma split_nl_single: "10 \<notin> set l \<Longrightarrow> split_nl l = [l]"
  by (induction l) (auto simp: Let_def)

lemma split_nl_line: "10 \<notin> set l \<Longrightarrow> split_nl (l @ 10 # rest) = l # split_nl rest"
  by (induction l) (auto simp: Let_def)

lemma split_join:
  "ls \<noteq> [] \<Longrightarrow> \<forall>l \<in> set ls. 10 \<notin> set l \<Longrightarrow> split_nl (join_nl ls) = ls"
proof (induction ls rule: join_nl.induct)
  case 1
  then show ?case by simp
next
  case (2 l)
  then show ?case by (simp add: split_nl_single)
next
  case (3 l m ls)
  then show ?case by (simp add: split_nl_line)
qed

lemma set_rstrip: "set (rstrip l) \<subseteq> set l"
  unfolding rstrip_def using set_dropWhileD [of _ isspace "rev l"] by auto

lemma set_strip: "set (strip l) \<subseteq> set l"
  unfolding strip_def lstrip_def
  using set_rstrip [of "dropWhile isspace l"] set_dropWhileD [of _ isspace l] by blast

lemma set_rstrip_char: "set (rstrip_char c l) \<subseteq> set l"
  unfolding rstrip_char_def using set_dropWhileD [of _ "\<lambda>x. x = c" "rev l"] by auto

lemma open_macro_no_newline: "10 \<notin> set l \<Longrightarrow> 10 \<notin> set (open_macro l)"
  using set_strip [of l] set_takeWhileD [of 10 isspace l]
  by (auto simp: open_macro_def indent_of_def lit_def)

lemma single_line_no_newline: "10 \<notin> set l \<Longrightarrow> 10 \<notin> set (single_line l)"
  using set_strip [of l] set_takeWhileD [of 10 isspace l] in_set_butlastD [of 10 "strip l"]
  by (auto simp: single_line_def indent_of_def lit_def Let_def)

lemma close_last_no_newline: "10 \<notin> set l \<Longrightarrow> 10 \<notin> set (close_last l)"
  using set_rstrip [of l] set_rstrip_char [of 44 "rstrip l"]
  by (auto simp: close_last_def lit_def)

lemma rewrite_lines_no_newline:
  assumes "\<forall>l \<in> set lines. 10 \<notin> set l"
  shows "\<forall>l \<in> set (rewrite_lines lines). 10 \<notin> set l"
proof -
  have "10 \<notin> set (rewrite_lines lines ! p)" if p: "p < length lines" for p
  proof -
    from p assms have "10 \<notin> set (lines ! p)" by simp
    with rewrite_lines_nth_cases [OF p] show ?thesis
      by (auto simp: open_macro_no_newline single_line_no_newline close_last_no_newline)
  qed
  then show ?thesis by (auto simp: in_set_conv_nth rewrite_lines_length)
qed

subsection \<open>Consumed lines and candidates in the output\<close>

lemma position_cases:
  assumes "p < length lines"
  shows "(p \<in> set (visited_from lines 0) \<and> rewrite_lines lines ! p = snd (step lines p) ! 0) \<or>
         (consumed lines p \<and> is_continuation (lines ! p) \<and>
            (rewrite_lines lines ! p = lines ! p \<or>
             rewrite_lines lines ! p = close_last (lines ! p)))"
proof -
  from assms visited_from_covers [of 0 p lines]
  obtain k where k: "k \<in> set (visited_from lines 0)" "k \<le> p" "p < fst (step lines k)"
    by auto
  then have m: "p - k < length (snd (step lines k))" by (simp add: step_length)
  with k have out: "rewrite_lines lines ! p = snd (step lines k) ! (p - k)"
    using rewrite_lines_nth [of k lines "p - k"] by simp
  show ?thesis
  proof (cases "p = k")
    case True
    with out k(1) show ?thesis by simp
  next
    case False
    with k have lt: "k < p" and pos: "0 < p - k" by simp_all
    from lt k have "consumed lines p" by (auto simp: consumed_def)
    with step_tail [OF pos m] k out show ?thesis by simp
  qed
qed

lemma visited_before_first_candidate:
  "i \<le> q \<Longrightarrow> q < length lines \<Longrightarrow> (\<And>k. i \<le> k \<Longrightarrow> k < q \<Longrightarrow> \<not> is_candidate (lines ! k)) \<Longrightarrow>
   q \<in> set (visited_from lines i)"
proof (induction lines i rule: visited_from.induct)
  case (1 lines i)
  from "1.prems" have inr: "i < length lines" by simp
  then have unf: "visited_from lines i = i # visited_from lines (fst (step lines i))"
    by (subst visited_from.simps) simp
  show ?case
  proof (cases "i = q")
    case True
    with unf show ?thesis by simp
  next
    case False
    with "1.prems"(1) have lt: "i < q" by simp
    with "1.prems"(3) have "\<not> is_candidate (lines ! i)" by simp
    then have st: "fst (step lines i) = i + 1" by (simp add: step_unrelated)
    with lt inr "1.prems" have "q \<in> set (visited_from lines (fst (step lines i)))"
      by (intro "1.IH") auto
    with unf show ?thesis by simp
  qed
qed

lemma step_head_not_candidate: "is_candidate (lines ! q) \<Longrightarrow> \<not> is_candidate (snd (step lines q) ! 0)"
  by (simp add: step_head open_macro_not_candidate single_line_not_candidate)

lemma candidate_gets_rewritten:
  assumes "\<exists>l \<in> set lines. is_candidate l"
  shows "rewrite_lines lines \<noteq> lines"
proof -
  from assms obtain p where p: "p < length lines" "is_candidate (lines ! p)"
    by (auto simp: in_set_conv_nth)
  define q where "q = (LEAST n. n < length lines \<and> is_candidate (lines ! n))"
  from p have q: "q < length lines \<and> is_candidate (lines ! q)"
    unfolding q_def by (intro LeastI [of "\<lambda>n. n < length lines \<and> is_candidate (lines ! n)" p]) simp
  have before: "\<not> is_candidate (lines ! k)" if "k < q" for k
  proof
    assume c: "is_candidate (lines ! k)"
    from that q have "k < length lines" by simp
    with c have "q \<le> k" unfolding q_def by (intro Least_le) simp
    with that show False by simp
  qed
  from q before have "q \<in> set (visited_from lines 0)"
    by (intro visited_before_first_candidate) auto
  then have "rewrite_lines lines ! q = snd (step lines q) ! 0"
    using rewrite_lines_nth [of q lines 0] step_advances [of q lines]
    by (simp add: step_length)
  with q have "\<not> is_candidate (rewrite_lines lines ! q)"
    by (simp add: step_head_not_candidate)
  with q show ?thesis by auto
qed

lemma consumed_output:
  assumes "consumed lines p"
  shows "p < length lines \<and> is_continuation (lines ! p) \<and>
         (rewrite_lines lines ! p = lines ! p \<or>
          rewrite_lines lines ! p = close_last (lines ! p))"
proof -
  from assms obtain k where k: "k \<in> set (visited_from lines 0)" "k < p" "p < fst (step lines k)"
    by (auto simp: consumed_def)
  then have m: "p - k < length (snd (step lines k))" by (simp add: step_length)
  with k have out: "rewrite_lines lines ! p = snd (step lines k) ! (p - k)"
    using rewrite_lines_nth [of k lines "p - k"] by simp
  from k have pos: "0 < p - k" by simp
  from step_tail [OF pos m] k out show ?thesis by simp
qed

lemma pattern_chars:
  "p = macro_token \<or> p \<in> set exclusions \<Longrightarrow> p \<noteq> [] \<and> 41 \<notin> set p \<and> 59 \<notin> set p"
  by (auto simp: macro_token_def exclusions_def lit_def)

lemma exclusion_from_close:
  assumes "endswith (strip l) (lit '','')" and "has_exclusion (close_last l)"
  shows "has_exclusion l"
proof -
  from close_last_shape [OF assms(1)] obtain body tail where
    s: "l = body @ 44 # tail" "close_last l = body @ lit '');''"
    by blast
  from assms(2) obtain p where p: "p = macro_token \<or> p \<in> set exclusions"
    "contains p (close_last l)"
    by (auto simp: has_exclusion_def)
  from pattern_chars [OF p(1)] have c: "p \<noteq> []" "41 \<notin> set p" "59 \<notin> set p" by simp_all
  from p(2) s(2) have "sublist p (body @ 41 # [59])"
    by (simp add: contains_sublist lit_def)
  with c(2) have "sublist p body \<or> sublist p [59]"
    using sublist_split_at [of p body 41 "[59]"] by simp
  moreover from c(1,3) have "\<not> sublist p [59]"
    by (cases p) (auto simp: sublist_Cons_right)
  ultimately have "sublist p body" by simp
  with s(1) have "contains p l" by (simp add: contains_sublist sublist_append)
  with p(1) show ?thesis by (auto simp: has_exclusion_def)
qed

lemma match_to_close:
  assumes "endswith (strip l) (lit '','')" and "match_ws_quote l"
  shows "match_ws_quote (close_last l)"
proof -
  from close_last_shape [OF assms(1)] obtain body tail where
    s: "l = body @ 44 # tail" "close_last l = body @ lit '');''"
    by blast
  have ex: "\<exists>x \<in> set body. \<not> isspace x"
  proof (rule ccontr)
    assume "\<not> (\<exists>x \<in> set body. \<not> isspace x)"
    then have "\<forall>x \<in> set body. isspace x" by simp
    moreover have "\<not> isspace 44" by (simp add: isspace_def)
    ultimately have "dropWhile isspace l = 44 # tail"
      using s(1) by (simp add: dropWhile_append)
    with assms(2) show False by (simp add: match_ws_quote_def startswith_def)
  qed
  from assms(2) s(1) have "match_ws_quote body" by (simp add: match_ws_quote_append [OF ex])
  with s(2) show ?thesis by (simp add: match_ws_quote_append [OF ex])
qed

lemma candidate_kept_by_close:
  assumes "is_continuation l" and "is_candidate l"
  shows "is_candidate (close_last l)"
proof (cases "endswith (strip l) (lit '');'')")
  case True
  with assms(2) show ?thesis by (simp add: close_last_closed)
next
  case False
  with assms(1) have c: "endswith (strip l) (lit '','')" by (simp add: is_continuation_def)
  from assms(2) have "match_ws_quote l" "\<not> has_exclusion l"
    by (simp_all add: is_candidate_exclusion)
  with match_to_close [OF c] exclusion_from_close [OF c]
  show ?thesis by (auto simp: is_candidate_exclusion)
qed

lemma output_candidates:
  "(\<forall>l \<in> set (rewrite_lines lines). \<not> is_candidate l) \<longleftrightarrow>
   (\<forall>p. consumed lines p \<longrightarrow> \<not> is_candidate (lines ! p))"
proof
  assume none: "\<forall>l \<in> set (rewrite_lines lines). \<not> is_candidate l"
  show "\<forall>p. consumed lines p \<longrightarrow> \<not> is_candidate (lines ! p)"
  proof (intro allI impI notI)
    fix p
    assume c: "consumed lines p" and cand: "is_candidate (lines ! p)"
    from consumed_output [OF c] have p: "p < length lines" and cont: "is_continuation (lines ! p)"
      and out: "rewrite_lines lines ! p = lines ! p \<or>
                rewrite_lines lines ! p = close_last (lines ! p)"
      by simp_all
    from out cand candidate_kept_by_close [OF cont cand]
    have "is_candidate (rewrite_lines lines ! p)" by auto
    moreover from p have "rewrite_lines lines ! p \<in> set (rewrite_lines lines)"
      by (simp add: rewrite_lines_length)
    ultimately show False using none by blast
  qed
next
  assume h: "\<forall>p. consumed lines p \<longrightarrow> \<not> is_candidate (lines ! p)"
  have "\<not> is_candidate (rewrite_lines lines ! p)" if p: "p < length lines" for p
  proof -
    from position_cases [OF p] show ?thesis
    proof (elim disjE conjE)
      assume e: "rewrite_lines lines ! p = snd (step lines p) ! 0"
      show ?thesis
      proof (cases "is_candidate (lines ! p)")
        case True
        then have "\<not> is_candidate (snd (step lines p) ! 0)" by (rule step_head_not_candidate)
        with e show ?thesis by simp
      next
        case False
        then have "snd (step lines p) ! 0 = lines ! p" by (simp add: step_head)
        with e False show ?thesis by simp
      qed
    next
      assume "consumed lines p" "rewrite_lines lines ! p = lines ! p"
      with h show ?thesis by simp
    next
      assume c: "consumed lines p" "is_continuation (lines ! p)"
        and e: "rewrite_lines lines ! p = close_last (lines ! p)"
      from c(1) h have "\<not> is_candidate (lines ! p)" by simp
      with c(2) e show ?thesis by (simp add: close_last_not_candidate)
    qed
  qed
  then show "\<forall>l \<in> set (rewrite_lines lines). \<not> is_candidate l"
    by (auto simp: in_set_conv_nth rewrite_lines_length)
qed

lemma rewrite_lines_fixed:
  "rewrite_lines lines = lines \<longleftrightarrow> (\<forall>l \<in> set lines. \<not> is_candidate l)"
  using candidate_gets_rewritten [of lines] rewrite_lines_no_candidates [of lines] by blast

lemma transform_twice:
  "transform (transform content) = transform content \<longleftrightarrow>
   rewrite_lines (rewrite_lines (split_nl content)) = rewrite_lines (split_nl content)"
proof -
  let ?out = "rewrite_lines (split_nl content)"
  have "length ?out = length (split_nl content)" by (rule rewrite_lines_length)
  with split_nl_nonempty [of content] have ne: "?out \<noteq> []" by auto
  have "\<forall>l \<in> set (split_nl content). 10 \<notin> set l" by (simp add: split_nl_no_newline)
  then have nl: "\<forall>l \<in> set ?out. 10 \<notin> set l" by (rule rewrite_lines_no_newline)
  with ne have sj: "split_nl (join_nl ?out) = ?out" by (rule split_join)
  have "length (rewrite_lines ?out) = length ?out" by (rule rewrite_lines_length)
  with ne have ne2: "rewrite_lines ?out \<noteq> []" by auto
  from nl have "\<forall>l \<in> set (rewrite_lines ?out). 10 \<notin> set l" by (rule rewrite_lines_no_newline)
  with ne2 have sj2: "split_nl (join_nl (rewrite_lines ?out)) = rewrite_lines ?out"
    by (rule split_join)
  have t2: "transform (transform content) = join_nl (rewrite_lines ?out)"
    using sj by (simp add: transform_def)
  show ?thesis
  proof
    assume "transform (transform content) = transform content"
    with t2 have "join_nl (rewrite_lines ?out) = join_nl ?out" by (simp add: transform_def)
    then have "split_nl (join_nl (rewrite_lines ?out)) = split_nl (join_nl ?out)" by simp
    with sj sj2 show "rewrite_lines ?out = ?out" by simp
  next
    assume "rewrite_lines ?out = ?out"
    with t2 show "transform (transform content) = transform content"
      by (simp add: transform_def)
  qed
qed

lemma idempotent_iff:
  "transform (transform content) = transform content \<longleftrightarrow>
   (\<forall>p. consumed (split_nl content) p \<longrightarrow> \<not> is_candidate (split_nl content ! p))"
  by (simp only: transform_twice rewrite_lines_fixed output_candidates)

subsection \<open>A second pass\<close>

lemma transform_idempotent:
  assumes "\<forall>l \<in> set (split_nl content). is_continuation l \<longrightarrow> \<not> is_candidate l"
  shows "transform (transform content) = transform content"
proof -
  let ?out = "rewrite_lines (split_nl content)"
  have "length ?out = length (split_nl content)" by (rule rewrite_lines_length)
  with split_nl_nonempty [of content] have ne: "?out \<noteq> []" by auto
  have "\<forall>l \<in> set (split_nl content). 10 \<notin> set l" by (simp add: split_nl_no_newline)
  then have "\<forall>l \<in> set ?out. 10 \<notin> set l" by (rule rewrite_lines_no_newline)
  with ne have sj: "split_nl (join_nl ?out) = ?out" by (rule split_join)
  from assms have "\<forall>l \<in> set ?out. \<not> is_candidate l" by (rule rewrite_lines_no_candidate_left)
  then have "rewrite_lines ?out = ?out" by (rule rewrite_lines_no_candidates)
  with sj show ?thesis by (simp add: transform_def)
qed

subsection \<open>Evaluation\<close>

text \<open>The definitions to unfold when a concrete line is evaluated.\<close>

lemmas eval_defs = is_continuation_def is_candidate_def match_ws_quote_def macro_token_def
  strip_def lstrip_def rstrip_def rstrip_char_def endswith_def startswith_def suffix_to_prefix
  lit_def isspace_def open_macro_def close_last_def single_line_def indent_of_def

lemmas scan_defs = transform_def rewrite_lines_def rewrite_from.simps step_def
  look_ahead_takeWhile Let_def

section \<open>Termination of the scan\<close>

text \<open>
  Claim C9. The rewriting scan terminates on every list of lines. Each iteration of the
  outer loop at an index in range moves the index strictly forward and never past the
  end: by one for an unrelated line and for a candidate without continuation lines, and
  past the consumed continuation lines, of which there is at least one, for a multi-line
  candidate. The loop head is therefore reached at most \<open>len(lines) - i\<close> times, and
  the result of the loop is what these iterations emit, in order.
\<close>

theorem scan_index_increases:
  assumes "i < length lines"
  shows "i < fst (step lines i) \<and> fst (step lines i) \<le> length lines \<and>
         (\<not> is_candidate (lines ! i) \<longrightarrow> fst (step lines i) = i + 1) \<and>
         (is_candidate (lines ! i) \<and> snd (look_ahead lines (i + 1) []) = [] \<longrightarrow>
            fst (step lines i) = i + 1) \<and>
         (is_candidate (lines ! i) \<and> snd (look_ahead lines (i + 1) []) \<noteq> [] \<longrightarrow>
            fst (step lines i) = i + 1 + length (snd (look_ahead lines (i + 1) [])) \<and>
            1 \<le> length (snd (look_ahead lines (i + 1) []))) \<and>
         length (visited_from lines i) \<le> length lines - i \<and>
         rewrite_from lines i acc =
           acc @ concat (map (\<lambda>k. snd (step lines k)) (visited_from lines i))"
proof -
  have a: "i < fst (step lines i)" by (rule step_advances)
  have b: "fst (step lines i) \<le> length lines" using assms by (rule step_fst_le)
  have c: "\<not> is_candidate (lines ! i) \<longrightarrow> fst (step lines i) = i + 1"
    by (simp add: step_unrelated)
  have d: "is_candidate (lines ! i) \<and> snd (look_ahead lines (i + 1) []) = [] \<longrightarrow>
            fst (step lines i) = i + 1"
    by (auto simp: step_def Let_def split: prod.splits)
  have e: "is_candidate (lines ! i) \<and> snd (look_ahead lines (i + 1) []) \<noteq> [] \<longrightarrow>
            fst (step lines i) = i + 1 + length (snd (look_ahead lines (i + 1) [])) \<and>
            1 \<le> length (snd (look_ahead lines (i + 1) []))"
    by (auto simp: step_def look_ahead_takeWhile Suc_le_eq)
  from a b c d e visited_from_length rewrite_from_unroll show ?thesis by blast
qed

theorem scan_index_increases_witness:
  "(0::nat) < length block_lines \<and> 0 < fst (step block_lines 0) \<and>
   fst (step block_lines 0) = 4 \<and>
   length (visited_from block_lines 0) \<le> length block_lines - 0"
proof -
  have h: "(0::nat) < length block_lines" by (simp add: block_lines_def)
  have s: "fst (step block_lines 0) = 4"
    by (simp add: step_def look_ahead_takeWhile block_lines_def eval_defs)
  from scan_index_increases [OF h, of "[]"] h s show ?thesis by blast
qed

section \<open>The continuation look-ahead\<close>

text \<open>
  Claim C6. Started at the line after a candidate-start, the look-ahead consumes the
  longest run of lines each of which is a continuation: a line whose stripped text ends
  with a comma, or ends with \<open>);\<close> and does not start with \<open>)\<close>. Every consumed
  line is such a line, the line it stops at (if any) is not, and nothing else bounds the
  scan: when every line from the start index to the end of the list is a continuation, all
  of them are consumed and the index ends at the length of the list.
\<close>

theorem look_ahead_consumes_run:
  "look_ahead lines j [] =
     (j + length (takeWhile is_continuation (drop j lines)),
      takeWhile is_continuation (drop j lines)) \<and>
   (is_continuation l \<longleftrightarrow>
      endswith (strip l) (lit '','') \<or>
      (endswith (strip l) (lit '');'') \<and> \<not> startswith (strip l) (lit '')''))) \<and>
   snd (look_ahead lines j []) = take (fst (look_ahead lines j []) - j) (drop j lines) \<and>
   (\<forall>k. j \<le> k \<and> k < fst (look_ahead lines j []) \<longrightarrow>
        k < length lines \<and> is_continuation (lines ! k)) \<and>
   (fst (look_ahead lines j []) < length lines \<longrightarrow>
      \<not> is_continuation (lines ! fst (look_ahead lines j []))) \<and>
   (j \<le> length lines \<and> (\<forall>k. j \<le> k \<and> k < length lines \<longrightarrow> is_continuation (lines ! k)) \<longrightarrow>
      look_ahead lines j [] = (length lines, drop j lines))"
proof -
  let ?run = "takeWhile is_continuation (drop j lines)"
  have la: "look_ahead lines j [] = (j + length ?run, ?run)"
    by (simp add: look_ahead_takeWhile)
  have tk: "?run = take (length ?run) (drop j lines)"
    by (rule takeWhile_eq_take)
  have inside: "k < length lines \<and> is_continuation (lines ! k)"
    if "j \<le> k" and "k < j + length ?run" for k
  proof -
    from that have m: "k - j < length ?run" by simp
    have le: "length ?run \<le> length (drop j lines)" by (rule length_takeWhile_le)
    from m have "?run ! (k - j) \<in> set ?run" by (rule nth_mem)
    then have "is_continuation (?run ! (k - j))" by (rule set_takeWhileD [THEN conjunct2])
    moreover from m have "?run ! (k - j) = drop j lines ! (k - j)" by (rule takeWhile_nth)
    moreover from m le that have "k < length lines" by simp
    ultimately show ?thesis using that by simp
  qed
  have stop: "\<not> is_continuation (lines ! (j + length ?run))" if "j + length ?run < length lines"
  proof -
    from that have "length ?run < length (drop j lines)" by simp
    then have "\<not> is_continuation (drop j lines ! length ?run)" by (rule nth_length_takeWhile)
    with that show ?thesis by simp
  qed
  have all: "look_ahead lines j [] = (length lines, drop j lines)"
    if "j \<le> length lines" and "\<forall>k. j \<le> k \<and> k < length lines \<longrightarrow> is_continuation (lines ! k)"
  proof -
    have "\<forall>x \<in> set (drop j lines). is_continuation x"
      using that(2) by (auto simp: in_set_conv_nth)
    then have "?run = drop j lines" by simp
    with la that(1) show ?thesis by simp
  qed
  have c3: "snd (look_ahead lines j []) = take (fst (look_ahead lines j []) - j) (drop j lines)"
    unfolding la fst_conv snd_conv using tk by simp
  have c4: "\<forall>k. j \<le> k \<and> k < fst (look_ahead lines j []) \<longrightarrow>
        k < length lines \<and> is_continuation (lines ! k)"
    unfolding la fst_conv using inside by blast
  have c5: "fst (look_ahead lines j []) < length lines \<longrightarrow>
      \<not> is_continuation (lines ! fst (look_ahead lines j []))"
    unfolding la fst_conv using stop by blast
  have c2: "is_continuation l \<longleftrightarrow>
      endswith (strip l) (lit '','') \<or>
      (endswith (strip l) (lit '');'') \<and> \<not> startswith (strip l) (lit '')''))"
    by (simp only: is_continuation_def)
  from la c2 c3 c4 c5 all show ?thesis by blast
qed

theorem look_ahead_consumes_run_witness:
  "(1::nat) \<le> length run_lines \<and> length run_lines = 4 \<and>
   is_continuation (run_lines ! 1) \<and> is_continuation (run_lines ! 2) \<and>
   is_continuation (run_lines ! 3) \<and>
   look_ahead run_lines 1 [] = (length run_lines, drop 1 run_lines)"
proof -
  have h1: "(1::nat) \<le> length run_lines" and h0: "length run_lines = 4"
    by (simp_all add: run_lines_def)
  have c: "is_continuation (run_lines ! 1)" "is_continuation (run_lines ! 2)"
    "is_continuation (run_lines ! 3)"
    by (simp_all add: run_lines_def eval_defs)
  have h2: "\<forall>k. 1 \<le> k \<and> k < length run_lines \<longrightarrow> is_continuation (run_lines ! k)"
  proof (intro allI impI)
    fix k :: nat
    assume "1 \<le> k \<and> k < length run_lines"
    with h0 have "k = 1 \<or> k = 2 \<or> k = 3" by auto
    with c show "is_continuation (run_lines ! k)" by auto
  qed
  from look_ahead_consumes_run [of run_lines 1 "[]"] h1 h2
  have "look_ahead run_lines 1 [] = (length run_lines, drop 1 run_lines)" by blast
  with h0 h1 c show ?thesis by simp
qed

section \<open>The single-line case\<close>

lemma hello_transform: "transform hello_line = hello_fixed"
  by (simp add: transform_def rewrite_lines_def rewrite_from.simps step_def
        look_ahead_takeWhile eval_defs hello_line_def hello_fixed_def Let_def)

text \<open>
  Claim C4. The text consisting of the one line \<open>    "hello";\<close> is rewritten to
  \<open>    ic_cdk::println!("hello");\<close>, and \<open>fix_missing_println\<close> on a writable file
  with that text stores the rewritten text, prints \<open>Fixed: <path>\<close> and returns True. In
  general a candidate-start with no continuation line after it is emitted as its leading
  whitespace, the macro token, an opening parenthesis, its stripped content without one
  trailing semicolon, a closing parenthesis and a semicolon.
\<close>

theorem single_line_rewrite:
  "transform hello_line = hello_fixed \<and>
   (read_result (fs file_path) = Inr hello_line \<and> write_behaviour (fs file_path) = Writes \<longrightarrow>
      fix_missing_println fs file_path =
        (fs(file_path := File (Inr hello_fixed) Writes), [lit ''Fixed: '' @ file_path], True)) \<and>
   (i < length lines \<and> is_candidate (lines ! i) \<and>
    (i + 1 = length lines \<or> \<not> is_continuation (lines ! (i + 1))) \<longrightarrow>
      step lines i =
        (i + 1,
         [takeWhile isspace (lines ! i) @ lit ''ic_cdk::println!'' @ lit ''('' @
          (if endswith (strip (lines ! i)) (lit '';'') then butlast (strip (lines ! i))
           else strip (lines ! i)) @
          lit '')'' @ lit '';'']))"
proof -
  have b: "fix_missing_println fs file_path =
        (fs(file_path := File (Inr hello_fixed) Writes), [lit ''Fixed: '' @ file_path], True)"
    if "read_result (fs file_path) = Inr hello_line"
      and "write_behaviour (fs file_path) = Writes"
  proof -
    have ne: "hello_fixed \<noteq> hello_line"
      by (simp add: lit_def hello_line_def hello_fixed_def)
    show ?thesis
      using that ne by (simp add: fix_missing_println_def hello_transform Let_def)
  qed
  have c: "step lines i =
        (i + 1,
         [takeWhile isspace (lines ! i) @ lit ''ic_cdk::println!'' @ lit ''('' @
          (if endswith (strip (lines ! i)) (lit '';'') then butlast (strip (lines ! i))
           else strip (lines ! i)) @
          lit '')'' @ lit '';''])"
    if "i < length lines" and "is_candidate (lines ! i)"
      and "i + 1 = length lines \<or> \<not> is_continuation (lines ! (i + 1))"
  proof -
    have "takeWhile is_continuation (drop (i + 1) lines) = []"
    proof (cases "i + 1 = length lines")
      case True
      then show ?thesis by simp
    next
      case False
      with that have "i + 1 < length lines" and "\<not> is_continuation (lines ! (i + 1))" by auto
      then show ?thesis by (simp add: takeWhile_eq_Nil_iff hd_drop_conv_nth)
    qed
    with that(2) have "step lines i = (i + 1, [single_line (lines ! i)])" by (rule step_single)
    then show ?thesis by (simp add: single_line_def indent_of_def Let_def lit_def)
  qed
  from hello_transform b c show ?thesis by blast
qed

theorem single_line_rewrite_witness:
  "read_result (hello_fs (lit ''lib.rs'')) = Inr hello_line \<and>
   write_behaviour (hello_fs (lit ''lib.rs'')) = Writes \<and>
   fix_missing_println hello_fs (lit ''lib.rs'') =
     (hello_fs(lit ''lib.rs'' := File (Inr hello_fixed) Writes),
      [lit ''Fixed: '' @ lit ''lib.rs''], True) \<and>
   (0::nat) < length [hello_line] \<and> is_candidate ([hello_line] ! 0) \<and>
   0 + 1 = length [hello_line] \<and>
   step [hello_line] 0 = (1, [hello_fixed])"
proof -
  have h1: "read_result (hello_fs (lit ''lib.rs'')) = Inr hello_line \<and>
            write_behaviour (hello_fs (lit ''lib.rs'')) = Writes"
    by (simp add: hello_fs_def)
  have h2: "(0::nat) < length [hello_line] \<and> is_candidate ([hello_line] ! 0) \<and>
            0 + 1 = length [hello_line]"
    by (simp add: hello_line_def eval_defs)
  have v: "takeWhile isspace ([hello_line] ! 0) @ lit ''ic_cdk::println!'' @ lit ''('' @
          (if endswith (strip ([hello_line] ! 0)) (lit '';'')
           then butlast (strip ([hello_line] ! 0)) else strip ([hello_line] ! 0)) @
          lit '')'' @ lit '';'' = hello_fixed"
    by (simp add: hello_line_def hello_fixed_def eval_defs)
  from single_line_rewrite [of hello_fs "lit ''lib.rs''" 0 "[hello_line]"] h1 h2
  have "fix_missing_println hello_fs (lit ''lib.rs'') =
          (hello_fs(lit ''lib.rs'' := File (Inr hello_fixed) Writes),
           [lit ''Fixed: '' @ lit ''lib.rs''], True)"
    and "step [hello_line] 0 =
        (0 + 1,
         [takeWhile isspace ([hello_line] ! 0) @ lit ''ic_cdk::println!'' @ lit ''('' @
          (if endswith (strip ([hello_line] ! 0)) (lit '';'')
           then butlast (strip ([hello_line] ! 0)) else strip ([hello_line] ! 0)) @
          lit '')'' @ lit '';''])"
    by blast+
  with h1 h2 v show ?thesis by simp
qed

section \<open>Lines that start with a quote in column 0\<close>

text \<open>
  Claim C10. A line whose first character is a double quote is never a candidate-start:
  the classification needs at least one whitespace character before the quote. When the
  outer scan reaches such a line (it was not consumed as a continuation of a preceding
  candidate) the iteration emits it unchanged and advances by one, and the output has the
  line itself at that position.
\<close>

theorem column0_quote_passes:
  "(startswith line [34] \<longrightarrow> \<not> match_ws_quote line \<and> \<not> is_candidate line) \<and>
   (is_candidate line \<longrightarrow> line \<noteq> [] \<and> isspace (hd line)) \<and>
   (i < length lines \<and> startswith (lines ! i) [34] \<longrightarrow> step lines i = (i + 1, [lines ! i])) \<and>
   (k \<in> set (visited_from lines 0) \<and> startswith (lines ! k) [34] \<longrightarrow>
      k < length (rewrite_lines lines) \<and> rewrite_lines lines ! k = lines ! k)"
proof -
  have a: "\<not> match_ws_quote l \<and> \<not> is_candidate l" if "startswith l [34]" for l
    using column0_not_matched [OF that] by (simp add: is_candidate_def)
  have c: "step lines i = (i + 1, [lines ! i])" if "startswith (lines ! i) [34]"
    using a [OF that] by (simp add: step_unrelated)
  have d: "k < length (rewrite_lines lines) \<and> rewrite_lines lines ! k = lines ! k"
    if "k \<in> set (visited_from lines 0)" and "startswith (lines ! k) [34]"
    using that a [OF that(2)] visited_from_bounds [OF that(1)]
    by (simp add: rewrite_lines_length rewrite_lines_visited_unrelated)
  from a c d candidate_leading_space show ?thesis by blast
qed

theorem column0_quote_passes_witness:
  "startswith (column0_lines ! 0) [34] \<and> \<not> is_candidate (column0_lines ! 0) \<and>
   (0::nat) < length column0_lines \<and> step column0_lines 0 = (0 + 1, [column0_lines ! 0]) \<and>
   0 \<in> set (visited_from column0_lines 0) \<and>
   rewrite_lines column0_lines ! 0 = column0_lines ! 0"
proof -
  have h1: "startswith (column0_lines ! 0) [34]"
    by (simp add: column0_lines_def startswith_def)
  have h2: "(0::nat) < length column0_lines" by (simp add: column0_lines_def)
  have h3: "0 \<in> set (visited_from column0_lines 0)"
    using h2 by (subst visited_from.simps) simp
  from column0_quote_passes [of "column0_lines ! 0" 0 column0_lines 0] h1 h2 h3
  show ?thesis by blast
qed

section \<open>Files without a candidate-start\<close>

lemma plain_split:
  "split_nl plain_text = [lit ''fn main() {'', lit ''    run();'', lit ''}'']"
  by (simp add: plain_text_def lit_def Let_def)

text \<open>
  Claim C7. When no line of a file is a candidate-start (in particular when no line
  starts with whitespace followed by a double quote) the reconstructed text equals the
  original, \<open>fix_missing_println\<close> leaves the file system as it is, prints nothing and
  returns False. More generally nothing is written whenever the reconstructed text equals
  the original: the file system changes only if it differs.
\<close>

theorem no_candidate_no_write:
  "(read_result (fs file_path) = Inr content \<and>
    (\<forall>l \<in> set (split_nl content). \<not> is_candidate l) \<longrightarrow>
      transform content = content \<and> fix_missing_println fs file_path = (fs, [], False)) \<and>
   ((\<forall>l \<in> set (split_nl content). \<not> match_ws_quote l) \<longrightarrow>
      (\<forall>l \<in> set (split_nl content). \<not> is_candidate l)) \<and>
   (read_result (fs file_path) = Inr content \<and> transform content = content \<longrightarrow>
      fix_missing_println fs file_path = (fs, [], False)) \<and>
   (fst (fix_missing_println fs file_path) \<noteq> fs \<longrightarrow>
      (\<exists>c. read_result (fs file_path) = Inr c \<and> transform c \<noteq> c))"
proof -
  have a: "transform content = content \<and> fix_missing_println fs file_path = (fs, [], False)"
    if "read_result (fs file_path) = Inr content"
      and "\<forall>l \<in> set (split_nl content). \<not> is_candidate l"
    using that transform_no_candidates [OF that(2)] by (simp add: fix_unchanged)
  have b: "\<forall>l \<in> set (split_nl content). \<not> is_candidate l"
    if "\<forall>l \<in> set (split_nl content). \<not> match_ws_quote l"
    using that by (simp add: is_candidate_def)
  show ?thesis
  proof (intro conjI impI)
    assume h: "read_result (fs file_path) = Inr content \<and>
               (\<forall>l \<in> set (split_nl content). \<not> is_candidate l)"
    then show "transform content = content" using a by simp
    from h show "fix_missing_println fs file_path = (fs, [], False)" using a by simp
  next
    assume "\<forall>l \<in> set (split_nl content). \<not> match_ws_quote l"
    then show "\<forall>l \<in> set (split_nl content). \<not> is_candidate l" by (rule b)
  next
    assume "read_result (fs file_path) = Inr content \<and> transform content = content"
    then show "fix_missing_println fs file_path = (fs, [], False)"
      by (simp add: fix_unchanged)
  next
    assume "fst (fix_missing_println fs file_path) \<noteq> fs"
    then show "\<exists>c. read_result (fs file_path) = Inr c \<and> transform c \<noteq> c"
      by (rule fix_changes_only_if)
  qed
qed

theorem no_candidate_no_write_witness:
  "read_result (plain_fs (lit ''main.rs'')) = Inr plain_text \<and>
   \<not> is_candidate (lit ''fn main() {'') \<and> \<not> is_candidate (lit ''    run();'') \<and>
   \<not> is_candidate (lit ''}'') \<and>
   transform plain_text = plain_text \<and>
   fix_missing_println plain_fs (lit ''main.rs'') = (plain_fs, [], False)"
proof -
  have h1: "read_result (plain_fs (lit ''main.rs'')) = Inr plain_text"
    by (simp add: plain_fs_def)
  have c: "\<not> is_candidate (lit ''fn main() {'')" "\<not> is_candidate (lit ''    run();'')"
    "\<not> is_candidate (lit ''}'')"
    by (simp_all add: eval_defs)
  then have h2: "\<forall>l \<in> set (split_nl plain_text). \<not> is_candidate l"
    by (simp add: plain_split)
  from h1 h2 have "read_result (plain_fs (lit ''main.rs'')) = Inr plain_text \<and>
      (\<forall>l \<in> set (split_nl plain_text). \<not> is_candidate l)" by (rule conjI)
  with no_candidate_no_write [of plain_fs "lit ''main.rs''" plain_text, THEN conjunct1]
  have "transform plain_text = plain_text \<and>
        fix_missing_println plain_fs (lit ''main.rs'') = (plain_fs, [], False)"
    by (rule mp)
  with h1 c show ?thesis by simp
qed

section \<open>Errors while processing a file\<close>



section \<open>An unreadable root directory\<close>

text \<open>
  Claim C3 says that a root directory that does not exist or cannot be read makes the
  discovery walk surface an I/O error to the caller of \<open>main\<close>. The source calls
  \<open>os.walk(backend_dir)\<close> without \<open>onerror\<close>, and \<open>os.walk\<close> then ignores the error of
  \<open>scandir\<close>: the walk yields nothing and \<open>main\<close> returns normally after printing that it
  found and fixed 0 files.
\<close>

theorem walk_error_not_surfaced:
  "scandir Missing = Inl FileNotFoundError \<and>
   os_walk backend_dir Missing = [] \<and>
   main Missing plain_fs =
     (plain_fs, [lit ''Found 0 Rust files to process...'', lit ''Fixed 0 files''])"
  by (simp add: main_def find_rust_files_def os_walk.simps lit_def)

text \<open>
  Claim C3, amended. When the root directory does not exist or cannot be listed, the walk
  yields no directory, no file is discovered or touched (the file system is unchanged),
  and \<open>main\<close> completes with the two lines \<open>Found 0 Rust files to process...\<close> and
  \<open>Fixed 0 files\<close>; no error reaches its caller.
\<close>

theorem walk_error_ignored:
  "scandir tree = Inl e \<longrightarrow>
     os_walk backend_dir tree = [] \<and> find_rust_files tree = [] \<and>
     main tree fs = (fs, [lit ''Found 0 Rust files to process...'', lit ''Fixed 0 files''])"
proof
  assume e: "scandir tree = Inl e"
  then have w: "os_walk backend_dir tree = []" by (rule os_walk_error)
  then have f: "find_rust_files tree = []" by (simp add: find_rust_files_def)
  then have "main tree fs = (fs, [lit ''Found 0 Rust files to process...'', lit ''Fixed 0 files''])"
    by (simp add: main_def lit_def)
  with w f show "os_walk backend_dir tree = [] \<and> find_rust_files tree = [] \<and>
     main tree fs = (fs, [lit ''Found 0 Rust files to process...'', lit ''Fixed 0 files''])"
    by simp
qed

theorem walk_error_ignored_witness:
  "scandir Denied = Inl PermissionError \<and> find_rust_files Denied = [] \<and>
   main Denied denied_fs =
     (denied_fs, [lit ''Found 0 Rust files to process...'', lit ''Fixed 0 files''])"
  using walk_error_ignored [of Denied PermissionError denied_fs] by simp

section \<open>Lines with the macro token or an exclusion substring\<close>




section \<open>The multi-line case\<close>

text \<open>
  Claim C2 says that for a candidate-start followed by two continuation lines ending in
  a comma and a third line ending in \<open>);\<close> the final consumed line has its trailing comma
  replaced by \<open>);\<close>. When the third line is consumed it is the final consumed line, it
  ends with \<open>);\<close> already, and the source appends it as it is; no comma is replaced
  anywhere in the block.
\<close>

theorem final_line_kept:
  "is_candidate (block_lines ! 0) \<and>
   endswith (strip (block_lines ! 1)) (lit '','') \<and>
   endswith (strip (block_lines ! 2)) (lit '','') \<and>
   endswith (strip (block_lines ! 3)) (lit '');'') \<and>
   step block_lines 0 =
     (4, [lit ''  ic_cdk::println!('' @ [34] @ lit ''a'' @ [34],
          lit ''  x,'', lit ''  y,'', lit ''  z);'']) \<and>
   last (snd (step block_lines 0)) = block_lines ! 3 \<and>
   last (snd (step block_lines 0)) \<noteq> rstrip_char 44 (rstrip (block_lines ! 3)) @ lit '');''"
  by (simp add: block_lines_def step_def look_ahead_takeWhile eval_defs)

text \<open>
  Claim C2, amended. For a candidate-start followed by two lines whose stripped text ends
  with a comma and a third whose stripped text ends with \<open>);\<close>, the block is emitted as
  the candidate line with its indentation, the macro token and an opening parenthesis before
  its stripped text, followed by the consumed lines, one output line per consumed line.
  When the third line's stripped text does not start with \<open>)\<close> it is consumed and
  emitted unchanged, like the two lines before it. When it starts with \<open>)\<close> it is not
  consumed: the block has three lines and the second continuation line, the last one
  consumed, has its trailing whitespace and commas replaced by \<open>);\<close>.
\<close>

theorem multi_line_block:
  assumes "i + 3 < length lines" and "is_candidate (lines ! i)"
    and "endswith (strip (lines ! (i + 1))) (lit '','')"
    and "endswith (strip (lines ! (i + 2))) (lit '','')"
    and "endswith (strip (lines ! (i + 3))) (lit '');'')"
  shows "(startswith (strip (lines ! (i + 3))) (lit '')'') \<longrightarrow>
            step lines i =
              (i + 3,
               [takeWhile isspace (lines ! i) @ lit ''ic_cdk::println!('' @ strip (lines ! i),
                lines ! (i + 1),
                rstrip_char 44 (rstrip (lines ! (i + 2))) @ lit '');''])) \<and>
         (\<not> startswith (strip (lines ! (i + 3))) (lit '')'') \<longrightarrow>
            i + 4 \<le> fst (step lines i) \<and>
            take 4 (snd (step lines i)) =
              [takeWhile isspace (lines ! i) @ lit ''ic_cdk::println!('' @ strip (lines ! i),
               lines ! (i + 1), lines ! (i + 2), lines ! (i + 3)]) \<and>
         (\<not> startswith (strip (lines ! (i + 3))) (lit '')'') \<and>
          (i + 4 = length lines \<or> \<not> is_continuation (lines ! (i + 4))) \<longrightarrow>
            step lines i =
              (i + 4,
               [takeWhile isspace (lines ! i) @ lit ''ic_cdk::println!('' @ strip (lines ! i),
                lines ! (i + 1), lines ! (i + 2), lines ! (i + 3)])) \<and>
         length (snd (step lines i)) = fst (step lines i) - i"
proof -
  let ?l1 = "lines ! (i + 1)" and ?l2 = "lines ! (i + 2)" and ?l3 = "lines ! (i + 3)"
  let ?rest = "takeWhile is_continuation (drop (i + 4) lines)"
  have c1: "is_continuation ?l1" and c2: "is_continuation ?l2"
    using assms(3,4) by (simp_all add: is_continuation_def)
  have d: "drop (i + 1) lines = ?l1 # ?l2 # ?l3 # drop (i + 4) lines"
    using assms(1) by (rule drop_three)
  have om: "open_macro (lines ! i) =
      takeWhile isspace (lines ! i) @ lit ''ic_cdk::println!('' @ strip (lines ! i)"
    by (simp add: open_macro_def indent_of_def)
  have A: "step lines i = (i + 3, [open_macro (lines ! i), ?l1, close_last ?l2])"
    if "startswith (strip ?l3) (lit '')'')"
  proof -
    from assms(5) have "\<not> endswith (strip ?l3) (lit '','')"
      using comma_not_close [of "strip ?l3"] by blast
    with that have "\<not> is_continuation ?l3"
      by (simp add: is_continuation_def)
    with c1 c2 d have "takeWhile is_continuation (drop (i + 1) lines) = [?l1, ?l2]" by simp
    from step_multi [OF assms(2) this] show ?thesis by (simp add: add.commute)
  qed
  have B: "step lines i =
      (i + 4 + length ?rest,
       open_macro (lines ! i) # butlast (?l1 # ?l2 # ?l3 # ?rest) @
         [close_last (last (?l1 # ?l2 # ?l3 # ?rest))])"
    if "\<not> startswith (strip ?l3) (lit '')'')"
  proof -
    from that assms(5) have "is_continuation ?l3" by (simp add: is_continuation_def)
    with c1 c2 d have "takeWhile is_continuation (drop (i + 1) lines) = ?l1 # ?l2 # ?l3 # ?rest"
      by simp
    from step_multi [OF assms(2) this] show ?thesis by simp
  qed
  have B4: "i + 4 \<le> fst (step lines i) \<and>
      take 4 (snd (step lines i)) = [open_macro (lines ! i), ?l1, ?l2, ?l3]"
    if n: "\<not> startswith (strip ?l3) (lit '')'')"
  proof (cases "?rest = []")
    case True
    with B [OF n] assms(5) show ?thesis by (simp add: close_last_closed)
  next
    case False
    with B [OF n] show ?thesis by (simp add: eval_nat_numeral)
  qed
  have B0: "step lines i = (i + 4, [open_macro (lines ! i), ?l1, ?l2, ?l3])"
    if n: "\<not> startswith (strip ?l3) (lit '')'')"
      and e: "i + 4 = length lines \<or> \<not> is_continuation (lines ! (i + 4))"
  proof -
    have "?rest = []"
    proof (cases "i + 4 = length lines")
      case True
      then show ?thesis by simp
    next
      case False
      with e assms(1) have "i + 4 < length lines" "\<not> is_continuation (lines ! (i + 4))"
        by auto
      then show ?thesis by (simp add: takeWhile_eq_Nil_iff hd_drop_conv_nth)
    qed
    with B [OF n] assms(5) show ?thesis by (simp add: close_last_closed)
  qed
  have len: "length (snd (step lines i)) = fst (step lines i) - i" by (rule step_length)
  from A B4 B0 len show ?thesis
    unfolding om close_last_comma [OF assms(4)] by blast
qed

theorem multi_line_block_witness:
  "(0::nat) + 3 < length block_lines \<and> is_candidate (block_lines ! 0) \<and>
   endswith (strip (block_lines ! (0 + 1))) (lit '','') \<and>
   endswith (strip (block_lines ! (0 + 2))) (lit '','') \<and>
   endswith (strip (block_lines ! (0 + 3))) (lit '');'') \<and>
   \<not> startswith (strip (block_lines ! (0 + 3))) (lit '')'') \<and>
   0 + 4 = length block_lines \<and>
   step block_lines 0 =
     (0 + 4,
      [takeWhile isspace (block_lines ! 0) @ lit ''ic_cdk::println!('' @ strip (block_lines ! 0),
       block_lines ! (0 + 1), block_lines ! (0 + 2), block_lines ! (0 + 3)]) \<and>
   (0::nat) + 3 < length paren_lines \<and> is_candidate (paren_lines ! 0) \<and>
   endswith (strip (paren_lines ! (0 + 1))) (lit '','') \<and>
   endswith (strip (paren_lines ! (0 + 2))) (lit '','') \<and>
   endswith (strip (paren_lines ! (0 + 3))) (lit '');'') \<and>
   startswith (strip (paren_lines ! (0 + 3))) (lit '')'') \<and>
   step paren_lines 0 =
     (0 + 3,
      [takeWhile isspace (paren_lines ! 0) @ lit ''ic_cdk::println!('' @ strip (paren_lines ! 0),
       paren_lines ! (0 + 1),
       rstrip_char 44 (rstrip (paren_lines ! (0 + 2))) @ lit '');''])"
proof -
  have b: "(0::nat) + 3 < length block_lines" "is_candidate (block_lines ! 0)"
    "endswith (strip (block_lines ! (0 + 1))) (lit '','')"
    "endswith (strip (block_lines ! (0 + 2))) (lit '','')"
    "endswith (strip (block_lines ! (0 + 3))) (lit '');'')"
    by (simp_all add: block_lines_def eval_defs)
  have b': "\<not> startswith (strip (block_lines ! (0 + 3))) (lit '')'')"
    "0 + 4 = length block_lines"
    by (simp_all add: block_lines_def eval_defs)
  have p: "(0::nat) + 3 < length paren_lines" "is_candidate (paren_lines ! 0)"
    "endswith (strip (paren_lines ! (0 + 1))) (lit '','')"
    "endswith (strip (paren_lines ! (0 + 2))) (lit '','')"
    "endswith (strip (paren_lines ! (0 + 3))) (lit '');'')"
    by (simp_all add: paren_lines_def eval_defs)
  have p': "startswith (strip (paren_lines ! (0 + 3))) (lit '')'')"
    by (simp add: paren_lines_def eval_defs)
  from multi_line_block [OF b] b'
  have rb: "step block_lines 0 =
     (0 + 4,
      [takeWhile isspace (block_lines ! 0) @ lit ''ic_cdk::println!('' @ strip (block_lines ! 0),
       block_lines ! (0 + 1), block_lines ! (0 + 2), block_lines ! (0 + 3)])"
    by blast
  from multi_line_block [OF p] p'
  have rp: "step paren_lines 0 =
     (0 + 3,
      [takeWhile isspace (paren_lines ! 0) @ lit ''ic_cdk::println!('' @ strip (paren_lines ! 0),
       paren_lines ! (0 + 1),
       rstrip_char 44 (rstrip (paren_lines ! (0 + 2))) @ lit '');''])"
    by blast
  from b b' p p' rb rp show ?thesis by blast
qed

section \<open>Running the rewriter twice\<close>

lemma nested_first: "transform nested_text = nested_once"
  by (simp add: nested_text_def nested_once_def scan_defs eval_defs)

lemma nested_second: "transform nested_once = nested_twice"
  by (simp add: nested_once_def nested_twice_def scan_defs eval_defs)

lemma nested_differs: "nested_twice \<noteq> nested_once" "nested_once \<noteq> nested_text"
  by (simp_all add: nested_text_def nested_once_def nested_twice_def lit_def)

text \<open>
  Claim C1 says that a second run of the rewriter changes nothing. A continuation line of
  a block is copied to the output, and it may itself start with whitespace and a quote:
  the second run, which no longer sees a candidate on the line before it, wraps it. Here
  the second argument of a three-line call is a string literal; the first run wraps the
  first line, the second run wraps the second line as well and reports the file as fixed
  again.
\<close>

theorem second_run_rewraps:
  "transform nested_text = nested_once \<and> transform nested_once = nested_twice \<and>
   transform (transform nested_text) \<noteq> transform nested_text \<and>
   fix_missing_println nested_fs (lit ''lib.rs'') =
     (nested_fs(lit ''lib.rs'' := File (Inr nested_once) Writes),
      [lit ''Fixed: '' @ lit ''lib.rs''], True) \<and>
   fix_missing_println (nested_fs(lit ''lib.rs'' := File (Inr nested_once) Writes)) (lit ''lib.rs'') =
     (nested_fs(lit ''lib.rs'' := File (Inr nested_twice) Writes),
      [lit ''Fixed: '' @ lit ''lib.rs''], True)"
proof -
  have a: "fix_missing_println nested_fs (lit ''lib.rs'') =
     (nested_fs(lit ''lib.rs'' := File (Inr nested_once) Writes),
      [lit ''Fixed: '' @ lit ''lib.rs''], True)"
    using nested_differs by (simp add: fix_missing_println_def nested_fs_def nested_first)
  have b: "fix_missing_println (nested_fs(lit ''lib.rs'' := File (Inr nested_once) Writes))
      (lit ''lib.rs'') =
     (nested_fs(lit ''lib.rs'' := File (Inr nested_twice) Writes),
      [lit ''Fixed: '' @ lit ''lib.rs''], True)"
    using nested_differs by (simp add: fix_missing_println_def nested_second)
  from a b nested_first nested_second nested_differs show ?thesis by simp
qed

text \<open>
  Claim C1, amended. Applying the rewrite to its own output returns that output exactly
  when no line that the first pass consumes as a continuation line is itself a
  candidate-start; this is so in particular when no line of the text that qualifies as a
  continuation is a candidate-start. A second run of \<open>fix_missing_println\<close> on a
  writable file then leaves the file system as the first run left it, prints nothing and
  returns False.
\<close>

theorem second_run_changes_nothing:
  "(transform (transform content) = transform content \<longleftrightarrow>
      (\<forall>p. consumed (split_nl content) p \<longrightarrow> \<not> is_candidate (split_nl content ! p))) \<and>
   ((\<forall>l \<in> set (split_nl content). is_continuation l \<longrightarrow> \<not> is_candidate l) \<longrightarrow>
      transform (transform content) = transform content) \<and>
   (transform (transform content) = transform content \<and>
    read_result (fs file_path) = Inr content \<and> write_behaviour (fs file_path) = Writes \<longrightarrow>
      fix_missing_println (fst (fix_missing_println fs file_path)) file_path =
        (fst (fix_missing_println fs file_path), [], False))"
proof (intro conjI impI)
  show "transform (transform content) = transform content \<longleftrightarrow>
      (\<forall>p. consumed (split_nl content) p \<longrightarrow> \<not> is_candidate (split_nl content ! p))"
    by (rule idempotent_iff)
next
  assume "\<forall>l \<in> set (split_nl content). is_continuation l \<longrightarrow> \<not> is_candidate l"
  then show "transform (transform content) = transform content"
    by (rule transform_idempotent)
next
  assume h: "transform (transform content) = transform content \<and>
    read_result (fs file_path) = Inr content \<and> write_behaviour (fs file_path) = Writes"
  then have idem: "transform (transform content) = transform content" by (rule conjunct1)
  show "fix_missing_println (fst (fix_missing_println fs file_path)) file_path =
              (fst (fix_missing_println fs file_path), [], False)"
  proof (cases "transform content = content")
    case True
    with h have "fix_missing_println fs file_path = (fs, [], False)"
      by (simp add: fix_unchanged)
    then show ?thesis by simp
  next
    case False
    with h have "fst (fix_missing_println fs file_path) =
        fs(file_path := File (Inr (transform content)) Writes)"
      by (simp add: fix_missing_println_def)
    moreover have "fix_missing_println (fs(file_path := File (Inr (transform content)) Writes))
        file_path = (fs(file_path := File (Inr (transform content)) Writes), [], False)"
      using idem by (intro fix_unchanged) simp_all
    ultimately show ?thesis by simp
  qed
qed

lemma block_split: "split_nl block_text = block_lines"
  by (simp add: block_text_def block_lines_def lit_def Let_def)

theorem second_run_changes_nothing_witness:
  "\<not> is_continuation (block_lines ! 0) \<and> \<not> is_candidate (block_lines ! 1) \<and>
   \<not> is_candidate (block_lines ! 2) \<and> \<not> is_candidate (block_lines ! 3) \<and>
   split_nl block_text = block_lines \<and>
   read_result (block_fs (lit ''lib.rs'')) = Inr block_text \<and>
   write_behaviour (block_fs (lit ''lib.rs'')) = Writes \<and>
   transform block_text \<noteq> block_text \<and>
   transform (transform block_text) = transform block_text \<and>
   fix_missing_println (fst (fix_missing_println block_fs (lit ''lib.rs''))) (lit ''lib.rs'') =
     (fst (fix_missing_println block_fs (lit ''lib.rs'')), [], False)"
proof -
  have c: "\<not> is_continuation (block_lines ! 0)" "\<not> is_candidate (block_lines ! 1)"
    "\<not> is_candidate (block_lines ! 2)" "\<not> is_candidate (block_lines ! 3)"
    by (simp_all add: block_lines_def eval_defs)
  have "\<forall>l \<in> set block_lines. is_continuation l \<longrightarrow> \<not> is_candidate l"
    using c by (simp add: block_lines_def)
  then have h: "\<forall>l \<in> set (split_nl block_text). is_continuation l \<longrightarrow> \<not> is_candidate l"
    by (simp add: block_split)
  have r: "read_result (block_fs (lit ''lib.rs'')) = Inr block_text"
    "write_behaviour (block_fs (lit ''lib.rs'')) = Writes"
    by (simp_all add: block_fs_def)
  have d: "transform block_text \<noteq> block_text"
    by (simp add: block_text_def scan_defs eval_defs)
  note t = second_run_changes_nothing [of block_text block_fs "lit ''lib.rs''"]
  from t h have i: "transform (transform block_text) = transform block_text" by blast
  with t r
  have "fix_missing_println (fst (fix_missing_println block_fs (lit ''lib.rs''))) (lit ''lib.rs'') =
     (fst (fix_missing_println block_fs (lit ''lib.rs'')), [], False)"
    by blast
  with c r d i block_split show ?thesis by simp
qed

end
